theory Spec2Isabelle
  imports Main "HOL-Library.AList" "HOL-Library.Char_ord" "HOL-Library.List_Lexorder"
begin

section \<open>Python values: errors, lists, dictionaries\<close>

text \<open>
  The exceptions the modelled code of \<^verbatim>\<open>local_API.py\<close> can raise:
  \<^verbatim>\<open>list.index\<close> of an absent element raises ValueError, a list subscript out of
  range raises IndexError, the subscript of an absent dictionary key raises KeyError and
  \<^verbatim>\<open>next\<close> on an exhausted file raises StopIteration.
\<close>

datatype error = ValueError | IndexError | KeyError | StopIteration

text \<open>\<^verbatim>\<open>xs.index(x)\<close>: the position of the first occurrence.\<close>

fun list_index :: "'a list \<Rightarrow> 'a \<Rightarrow> error + nat" where
  "list_index [] x = Inl ValueError"
| "list_index (y # ys) x =
     (if y = x then Inr 0
      else (case list_index ys x of Inl e \<Rightarrow> Inl e | Inr i \<Rightarrow> Inr (Suc i)))"

text \<open>\<^verbatim>\<open>xs[i]\<close> for an index that is never negative.\<close>

definition list_get :: "'a list \<Rightarrow> nat \<Rightarrow> error + 'a" where
  "list_get xs i = (if i < length xs then Inr (xs ! i) else Inl IndexError)"

text \<open>
  A dictionary is an association list in insertion order: \<open>AList.update\<close> replaces the
  value of a present key in place and appends an absent key, as a Python dict does.
\<close>

type_synonym ('k, 'v) dict = "('k \<times> 'v) list"

definition dict_fromkeys :: "'k list \<Rightarrow> 'v \<Rightarrow> ('k, 'v) dict" where
  "dict_fromkeys ks v = foldl (\<lambda>d k. AList.update k v d) [] ks"

definition dict_get :: "('k, 'v) dict \<Rightarrow> 'k \<Rightarrow> 'v \<Rightarrow> 'v" where
  "dict_get d k dflt = (case map_of d k of None \<Rightarrow> dflt | Some v \<Rightarrow> v)"

text \<open>\<^verbatim>\<open>d[k] += 1\<close>: the read of an absent key raises KeyError.\<close>

definition dict_incr :: "('k, int) dict \<Rightarrow> 'k \<Rightarrow> error + ('k, int) dict" where
  "dict_incr d k =
     (case map_of d k of None \<Rightarrow> Inl KeyError | Some c \<Rightarrow> Inr (AList.update k (c + 1) d))"

text \<open>
  A \<^verbatim>\<open>for\<close> loop whose body may raise: the body maps an element and the state to
  an error or the next state, and the first error ends the loop.
\<close>

fun for_loop :: "('a \<Rightarrow> 's \<Rightarrow> error + 's) \<Rightarrow> 'a list \<Rightarrow> 's \<Rightarrow> error + 's" where
  "for_loop body [] s = Inr s"
| "for_loop body (x # xs) s =
     (case body x s of Inl e \<Rightarrow> Inl e | Inr s' \<Rightarrow> for_loop body xs s')"

section \<open>The state of \<^verbatim>\<open>LOCAL_API\<close>\<close>

text \<open>
  The attributes the queries read. Matrix cells and directions are Python ints; the
  population counts are Python ints as well.
\<close>

record api =
  variant_list :: "int list list"
  indiv_list :: "string list"
  popu_list :: "string list"
  variant_name_list :: "string list"
  ancestry_dict :: "(string, string) dict"
  ancestry_list :: "string list"

type_synonym split_path = "string list \<times> int list"

section \<open>\<^verbatim>\<open>create_split_path\<close>\<close>

definition create_split_path :: "split_path \<Rightarrow> string \<Rightarrow> split_path \<times> split_path" where
  "create_split_path split_path new_variant_name =
     ((fst split_path @ [new_variant_name], snd split_path @ [1]),
      (fst split_path @ [new_variant_name], snd split_path @ [0]))"

section \<open>\<^verbatim>\<open>find_ignore_rows\<close>\<close>

text \<open>
  The body of the inner loop over \<^verbatim>\<open>enumerate(self.variant_list)\<close>. The test
  \<^verbatim>\<open>idx not in ignore_rows_idxs and variants[var_idx] is not direction\<close> reads the
  cell only for a row that is not flagged yet. The cells and the directions are the ints
  0 and 1, for which the identity test of CPython is the test of the values.
\<close>

definition ignore_row :: "nat \<Rightarrow> int \<Rightarrow> nat \<times> int list \<Rightarrow> nat list \<Rightarrow> error + nat list" where
  "ignore_row var_idx direction row ignore_rows_idxs =
     (case row of (idx, variants) \<Rightarrow>
        if idx \<in> set ignore_rows_idxs then Inr ignore_rows_idxs
        else (case list_get variants var_idx of
                Inl e \<Rightarrow> Inl e
              | Inr cell \<Rightarrow>
                  if cell \<noteq> direction then Inr (ignore_rows_idxs @ [idx])
                  else Inr ignore_rows_idxs))"

text \<open>The body of the outer loop over \<^verbatim>\<open>zip(split_path[0], split_path[1])\<close>.\<close>

definition ignore_constraint :: "api \<Rightarrow> string \<times> int \<Rightarrow> nat list \<Rightarrow> error + nat list" where
  "ignore_constraint a c ignore_rows_idxs =
     (case c of (exc_var, direction) \<Rightarrow>
        (case list_index (variant_name_list a) exc_var of
           Inl e \<Rightarrow> Inl e
         | Inr var_idx \<Rightarrow>
             for_loop (ignore_row var_idx direction) (enumerate 0 (variant_list a))
               ignore_rows_idxs))"

definition find_ignore_rows :: "api \<Rightarrow> split_path \<Rightarrow> error + nat list" where
  "find_ignore_rows a split_path =
     for_loop (ignore_constraint a) (zip (fst split_path) (snd split_path)) []"

section \<open>\<^verbatim>\<open>split_subset\<close>\<close>

text \<open>\<^verbatim>\<open>if split_var:\<close> is false for None and for the empty string.\<close>

definition truthy :: "string option \<Rightarrow> bool" where
  "truthy split_var = (case split_var of None \<Rightarrow> False | Some s \<Rightarrow> s \<noteq> [])"

definition split_row ::
  "api \<Rightarrow> nat list \<Rightarrow> string option \<Rightarrow> nat \<times> int list \<Rightarrow>
   (string, int) dict \<times> (string, int) dict \<Rightarrow> error + ((string, int) dict \<times> (string, int) dict)"
where
  "split_row a ignore_rows_idxs split_var row acc =
     (case row of (idx, variants) \<Rightarrow>
      case acc of (w_variant_dict, wo_variant_dict) \<Rightarrow>
        if idx \<in> set ignore_rows_idxs then Inr acc
        else (case list_get (popu_list a) idx of
                Inl e \<Rightarrow> Inl e
              | Inr popu \<Rightarrow>
                  if truthy split_var then
                    (case list_index (variant_name_list a) (the split_var) of
                       Inl e \<Rightarrow> Inl e
                     | Inr f_var_idx \<Rightarrow>
                         (case list_get variants f_var_idx of
                            Inl e \<Rightarrow> Inl e
                          | Inr cell \<Rightarrow>
                              if cell = 1 then
                                (case dict_incr w_variant_dict popu of
                                   Inl e \<Rightarrow> Inl e
                                 | Inr w' \<Rightarrow> Inr (w', wo_variant_dict))
                              else
                                (case dict_incr wo_variant_dict popu of
                                   Inl e \<Rightarrow> Inl e
                                 | Inr wo' \<Rightarrow> Inr (w_variant_dict, wo'))))
                  else Inr acc))"

text \<open>The argument is the split path of the node (\<^verbatim>\<open>node.split_path\<close>).\<close>

definition split_subset ::
  "api \<Rightarrow> split_path \<Rightarrow> string option \<Rightarrow>
   error + ((string, int) dict \<times> (string, int) dict)"
where
  "split_subset a split_path split_var =
     (let w_variant_dict = dict_fromkeys (ancestry_list a) 0;
          wo_variant_dict = dict_fromkeys (ancestry_list a) 0
      in case find_ignore_rows a split_path of
           Inl e \<Rightarrow> Inl e
         | Inr ignore_rows_idxs \<Rightarrow>
             for_loop (split_row a ignore_rows_idxs split_var)
               (enumerate 0 (variant_list a)) (w_variant_dict, wo_variant_dict))"

section \<open>\<^verbatim>\<open>find_next_variant_counts\<close>\<close>

text \<open>
  \<^verbatim>\<open>w_variant_list[idx2][popu] += 1\<close>: the list subscript is evaluated first, then
  the dictionary entry is read and written.
\<close>

definition count_cell ::
  "string \<Rightarrow> nat \<times> int \<Rightarrow> (string, int) dict list \<Rightarrow> error + (string, int) dict list"
where
  "count_cell popu cell w_variant_list =
     (case cell of (idx2, variant) \<Rightarrow>
        if variant = 1 then
          (case list_get w_variant_list idx2 of
             Inl e \<Rightarrow> Inl e
           | Inr d \<Rightarrow>
               (case dict_incr d popu of
                  Inl e \<Rightarrow> Inl e
                | Inr d' \<Rightarrow> Inr (w_variant_list[idx2 := d'])))
        else Inr w_variant_list)"

definition count_row ::
  "api \<Rightarrow> nat list \<Rightarrow> nat \<times> int list \<Rightarrow> (string, int) dict list \<Rightarrow>
   error + (string, int) dict list"
where
  "count_row a ignore_rows_idxs row w_variant_list =
     (case row of (idx, variants) \<Rightarrow>
        if idx \<in> set ignore_rows_idxs then Inr w_variant_list
        else (case list_get (popu_list a) idx of
                Inl e \<Rightarrow> Inl e
              | Inr popu \<Rightarrow>
                  for_loop (count_cell popu) (enumerate 0 variants) w_variant_list))"

definition find_next_variant_counts :: "api \<Rightarrow> split_path \<Rightarrow> error + (string, int) dict list" where
  "find_next_variant_counts a split_path =
     (let w_variant_list = map (\<lambda>variant_names. dict_fromkeys (ancestry_list a) 0)
                             (variant_name_list a)
      in case find_ignore_rows a split_path of
           Inl e \<Rightarrow> Inl e
         | Inr ignore_rows_idxs \<Rightarrow>
             for_loop (count_row a ignore_rows_idxs) (enumerate 0 (variant_list a))
               w_variant_list)"

section \<open>\<^verbatim>\<open>get_target_set\<close> and \<^verbatim>\<open>count_variants\<close>\<close>

definition get_target_set :: "api \<Rightarrow> (string, int) dict" where
  "get_target_set a =
     foldl (\<lambda>counts i. AList.update i (dict_get counts i 0 + 1) counts)
       (dict_fromkeys (ancestry_list a) 0) (popu_list a)"

definition variant_cell :: "api \<Rightarrow> nat \<times> int \<Rightarrow> (string, int) dict \<Rightarrow> error + (string, int) dict" where
  "variant_cell a cell my_dict =
     (case cell of (idx, variant) \<Rightarrow>
        if variant = 1 then
          (case list_get (variant_name_list a) idx of
             Inl e \<Rightarrow> Inl e
           | Inr name \<Rightarrow> Inr (AList.update name (dict_get my_dict name 0 + 1) my_dict))
        else Inr my_dict)"

definition count_variants :: "api \<Rightarrow> error + (string, int) dict" where
  "count_variants a =
     for_loop (\<lambda>variants. for_loop (variant_cell a) (enumerate 0 variants))
       (variant_list a) []"

section \<open>Construction of the state: \<^verbatim>\<open>create_variant_dict\<close> and \<^verbatim>\<open>read_user_mappings\<close>\<close>

text \<open>
  What the code reads of a record of the VCF reader: its chromosome, its position and its
  calls, each with the sample name and the genotype string \<^verbatim>\<open>call['GT']\<close>.
\<close>

record call =
  sample :: string
  GT :: string

record variant =
  CHROM :: string
  POS :: int
  samples :: "call list"

text \<open>\<^verbatim>\<open>str\<close> of a Python int.\<close>

fun str_nat :: "nat \<Rightarrow> string" where
  "str_nat n =
     (if n < 10 then [''0123456789'' ! n]
      else str_nat (n div 10) @ [''0123456789'' ! (n mod 10)])"

definition str_int :: "int \<Rightarrow> string" where
  "str_int i = (if i < 0 then CHR ''-'' # str_nat (nat (- i)) else str_nat (nat i))"

text \<open>\<^verbatim>\<open>':'.join([str(variant.CHROM), str(variant.POS-1), str(variant.POS)])\<close>\<close>

definition variant_name :: "variant \<Rightarrow> string" where
  "variant_name v = CHROM v @ '':'' @ str_int (POS v - 1) @ '':'' @ str_int (POS v)"

text \<open>The cell the code appends for a genotype string.\<close>

definition genotype_cell :: "string \<Rightarrow> int" where
  "genotype_cell gt = (if gt \<in> set [''0/0'', ''0|0'', ''.''] then 0 else 1)"

text \<open>
  The body of the loop over \<^verbatim>\<open>variant.samples\<close>: the entry of the sample is created
  with the empty list when it is missing, then the cell is appended to it.
\<close>

definition add_call :: "call \<Rightarrow> (string, int list) dict \<Rightarrow> (string, int list) dict" where
  "add_call c variant_dict =
     (let d = AList.update (sample c) (dict_get variant_dict (sample c) []) variant_dict
      in AList.update (sample c) (dict_get d (sample c) [] @ [genotype_cell (GT c)]) d)"

definition add_variant ::
  "api \<times> (string, int list) dict \<Rightarrow> variant \<Rightarrow> api \<times> (string, int list) dict" where
  "add_variant s v =
     (case s of (a, variant_dict) \<Rightarrow>
        (a\<lparr>variant_name_list := variant_name_list a @ [variant_name v]\<rparr>,
         foldl (\<lambda>d c. add_call c d) variant_dict (samples v)))"

definition create_variant_dict :: "api \<Rightarrow> variant list \<Rightarrow> api \<times> (string, int list) dict" where
  "create_variant_dict a variants = foldl add_variant (a, []) variants"

text \<open>\<^verbatim>\<open>line.split(sep)\<close> for a separator of one character.\<close>

fun str_split :: "char \<Rightarrow> string \<Rightarrow> string list" where
  "str_split sep [] = [[]]"
| "str_split sep (c # cs) =
     (if c = sep then [] # str_split sep cs
      else (case str_split sep cs of [] \<Rightarrow> [[c]] | w # ws \<Rightarrow> (c # w) # ws))"

text \<open>
  The body of the loop over the lines of the mapping file, the tab being the character 9.
  The population is recorded in \<open>ancestry_dict\<close> for every line, and in the three aligned
  lists when the individual has a row in \<open>variant_dict\<close>.
\<close>

definition read_line :: "(string, int list) dict \<Rightarrow> string \<Rightarrow> api \<Rightarrow> error + api" where
  "read_line variant_dict line a =
     (let split_line = str_split (CHR 0x09) line in
      case list_get split_line 1 of
        Inl e \<Rightarrow> Inl e
      | Inr indiv_id \<Rightarrow>
          (case list_get split_line 6 of
             Inl e \<Rightarrow> Inl e
           | Inr population \<Rightarrow>
               (let a' = a\<lparr>ancestry_dict := AList.update indiv_id population (ancestry_dict a)\<rparr>
                in case map_of variant_dict indiv_id of
                     None \<Rightarrow> Inr a'
                   | Some variants \<Rightarrow>
                       Inr (a'\<lparr>indiv_list := indiv_list a' @ [indiv_id],
                               popu_list := popu_list a' @ [population],
                               variant_list := variant_list a' @ [variants]\<rparr>))))"

text \<open>
  The mapping file is the list of its lines; \<^verbatim>\<open>next(file)\<close> skips the header and raises
  StopIteration on an empty file. \<^verbatim>\<open>list(set(...))\<close> followed by \<^verbatim>\<open>sort()\<close> is the
  sorted list of the distinct values.
\<close>

definition read_user_mappings :: "api \<Rightarrow> string list \<Rightarrow> (string, int list) dict \<Rightarrow> error + api" where
  "read_user_mappings a mapping_file variant_dict =
     (case mapping_file of
        [] \<Rightarrow> Inl StopIteration
      | header # lines \<Rightarrow>
          (case for_loop (read_line variant_dict) lines a of
             Inl e \<Rightarrow> Inl e
           | Inr a' \<Rightarrow>
               Inr (a'\<lparr>ancestry_list := sort (remdups (map snd (ancestry_dict a')))\<rparr>)))"

text \<open>
  \<^verbatim>\<open>__init__\<close>, from the variants that \<^verbatim>\<open>fetch_variants\<close> returns and the lines of
  the mapping file.
\<close>

definition LOCAL_API_init :: "variant list \<Rightarrow> string list \<Rightarrow> error + api" where
  "LOCAL_API_init variants mapping_file =
     (case create_variant_dict
             \<lparr>variant_list = [], indiv_list = [], popu_list = [], variant_name_list = [],
              ancestry_dict = [], ancestry_list = []\<rparr> variants of
        (a, variant_dict) \<Rightarrow> read_user_mappings a mapping_file variant_dict)"

section \<open>The invariants of the data model\<close>

text \<open>
  Every row of the matrix has one cell per variant name, and the population labels are
  index-aligned with the rows and drawn from the ancestry universe.
\<close>

definition rows_aligned :: "api \<Rightarrow> bool" where
  "rows_aligned a = list_all (\<lambda>row. length row = length (variant_name_list a)) (variant_list a)"

definition popu_aligned :: "api \<Rightarrow> bool" where
  "popu_aligned a = (length (popu_list a) = length (variant_list a))"

definition popu_known :: "api \<Rightarrow> bool" where
  "popu_known a = list_all (\<lambda>popu. popu \<in> set (ancestry_list a)) (popu_list a)"

text \<open>A row satisfies a constraint when its cell in the column of the variant is the direction.\<close>

definition satisfies :: "api \<Rightarrow> string \<times> int \<Rightarrow> int list \<Rightarrow> bool" where
  "satisfies a c row =
     (case c of (v, d) \<Rightarrow>
        (case list_index (variant_name_list a) v of
           Inl e \<Rightarrow> False
         | Inr j \<Rightarrow> j < length row \<and> row ! j = d))"

text \<open>
  The rows that are not in \<open>ig\<close>, have population \<open>p\<close> and whose cell in column \<open>j\<close> is 1
  (\<open>has\<close>) or is not 1 (\<open>\<not> has\<close>).
\<close>

definition rows_with :: "api \<Rightarrow> nat list \<Rightarrow> nat \<Rightarrow> string \<Rightarrow> bool \<Rightarrow> nat list" where
  "rows_with a ig j p has =
     filter (\<lambda>i. i \<notin> set ig \<and> popu_list a ! i = p \<and> ((variant_list a ! i ! j = 1) = has))
       [0..<length (variant_list a)]"

text \<open>
  The scenario of the specification: four individuals, two variants, rows
  \<open>[1,0], [1,1], [0,0], [0,1]\<close> and populations \<open>A, A, B, B\<close>.
\<close>

definition scenario :: api where
  "scenario =
     \<lparr>variant_list = [[1, 0], [1, 1], [0, 0], [0, 1]],
      indiv_list = [''I0'', ''I1'', ''I2'', ''I3''],
      popu_list = [''A'', ''A'', ''B'', ''B''],
      variant_name_list = [''V1'', ''V2''],
      ancestry_dict = [(''I0'', ''A''), (''I1'', ''A''), (''I2'', ''B''), (''I3'', ''B'')],
      ancestry_list = [''A'', ''B'']\<rparr>"

section \<open>Closed forms of the counting loops\<close>

text \<open>The dictionary \<open>d\<close> after one increment for every label of \<open>ps\<close>.\<close>

definition add_counts :: "('k, int) dict \<Rightarrow> 'k list \<Rightarrow> ('k, int) dict" where
  "add_counts d ps = map (\<lambda>(k, c). (k, c + int (count_list ps k))) d"

text \<open>
  The population labels of the enumerated rows that are not in \<open>ig\<close> and satisfy \<open>P\<close>, in
  the order of the rows.
\<close>

definition counted_popus ::
  "api \<Rightarrow> nat list \<Rightarrow> (int list \<Rightarrow> bool) \<Rightarrow> (nat \<times> int list) list \<Rightarrow> string list" where
  "counted_popus a ig P rows =
     map (\<lambda>r. popu_list a ! fst r) (filter (\<lambda>r. fst r \<notin> set ig \<and> P (snd r)) rows)"

text \<open>The pointwise sum of two dictionaries with the same keys in the same order.\<close>

definition dict_sum :: "('k, int) dict \<Rightarrow> ('k, int) dict \<Rightarrow> ('k, int) dict" where
  "dict_sum w wo = map (\<lambda>(x, y). (fst x, snd x + snd y)) (zip w wo)"

text \<open>A state in which every individual carries the only variant.\<close>

definition all_carriers :: api where
  "all_carriers =
     \<lparr>variant_list = [[1], [1]],
      indiv_list = [''I0'', ''I1''],
      popu_list = [''A'', ''A''],
      variant_name_list = [''V1''],
      ancestry_dict = [(''I0'', ''A''), (''I1'', ''A'')],
      ancestry_list = [''A'']\<rparr>"

text \<open>The number of rows with a 1 in column \<open>j\<close>, over the whole matrix.\<close>

definition carriers :: "api \<Rightarrow> nat \<Rightarrow> nat" where
  "carriers a j = length (filter (\<lambda>row. row ! j = 1) (variant_list a))"

text \<open>The names that the inner loop of \<open>count_variants\<close> counts for one enumerated row.\<close>

definition carried_names :: "api \<Rightarrow> nat \<Rightarrow> int list \<Rightarrow> string list" where
  "carried_names a n row =
     map (\<lambda>r. variant_name_list a ! fst r) (filter (\<lambda>r. snd r = 1) (enumerate n row))"

text \<open>A state in which no individual carries the second variant.\<close>

definition silent_variant :: api where
  "silent_variant =
     \<lparr>variant_list = [[1, 0], [0, 0], [1, 0]],
      indiv_list = [''I0'', ''I1'', ''I2''],
      popu_list = [''A'', ''B'', ''B''],
      variant_name_list = [''V1'', ''V2''],
      ancestry_dict = [(''I0'', ''A''), (''I1'', ''B''), (''I2'', ''B'')],
      ancestry_list = [''A'', ''B'']\<rparr>"

text \<open>
  The calls of a sample over all variants, in the order of the loops, as genotype strings.
\<close>

definition sample_calls :: "string \<Rightarrow> variant list \<Rightarrow> string list" where
  "sample_calls s variants =
     map GT (filter (\<lambda>c. sample c = s) (concat (map samples variants)))"

text \<open>A line of a tab-separated file.\<close>

fun tab_line :: "string list \<Rightarrow> string" where
  "tab_line [] = []"
| "tab_line [f] = f"
| "tab_line (f # fs) = f @ CHR 0x09 # tab_line fs"

text \<open>
  Two variants with three samples, and two mapping files for them: one with an individual
  without genotypes, one in which an individual occurs twice with two populations.
\<close>

definition example_variants :: "variant list" where
  "example_variants =
     [\<lparr>CHROM = ''1'', POS = 100,
       samples = [\<lparr>sample = ''HG1'', GT = ''0|1''\<rparr>, \<lparr>sample = ''HG2'', GT = ''0|0''\<rparr>,
                  \<lparr>sample = ''HG3'', GT = ''.''\<rparr>]\<rparr>,
      \<lparr>CHROM = ''1'', POS = 205,
       samples = [\<lparr>sample = ''HG1'', GT = ''0/0''\<rparr>, \<lparr>sample = ''HG2'', GT = ''1|1''\<rparr>,
                  \<lparr>sample = ''HG3'', GT = ''./.''\<rparr>]\<rparr>]"

definition example_file :: "string list" where
  "example_file =
     [tab_line [''fam'', ''id'', ''c2'', ''c3'', ''c4'', ''c5'', ''pop''],
      tab_line [''f1'', ''HG1'', ''0'', ''0'', ''1'', ''0'', ''GBR''],
      tab_line [''f2'', ''HG2'', ''0'', ''0'', ''2'', ''0'', ''FIN''],
      tab_line [''f3'', ''HG9'', ''0'', ''0'', ''2'', ''0'', ''CHS'']]"

definition repeated_id_file :: "string list" where
  "repeated_id_file =
     [tab_line [''fam'', ''id'', ''c2'', ''c3'', ''c4'', ''c5'', ''pop''],
      tab_line [''f1'', ''HG1'', ''0'', ''0'', ''1'', ''0'', ''GBR''],
      tab_line [''f1'', ''HG1'', ''0'', ''0'', ''1'', ''0'', ''FIN'']]"

text \<open>
  The individual id and the population of a line of the mapping file, and the mapping files
  in which no individual id comes with two different populations.
\<close>

definition line_id :: "string \<Rightarrow> string" where
  "line_id line = str_split (CHR 0x09) line ! 1"

definition line_population :: "string \<Rightarrow> string" where
  "line_population line = str_split (CHR 0x09) line ! 6"

definition one_population_per_id :: "string list \<Rightarrow> bool" where
  "one_population_per_id lines =
     list_all (\<lambda>l. list_all (\<lambda>l'. line_id l \<noteq> line_id l' \<or> line_population l = line_population l') lines)
       lines"

text \<open>Every variant has exactly one call for every sample that has a call at all.\<close>

definition same_samples :: "variant list \<Rightarrow> bool" where
  "same_samples variants =
     list_all (\<lambda>v. list_all (\<lambda>c. list_all (\<lambda>v'. length (filter (\<lambda>c'. sample c' = sample c) (samples v')) = 1) variants)
                            (samples v)) variants"

text \<open>The states that \<^verbatim>\<open>__init__\<close> builds from the example variants and the two files.\<close>

definition example_api :: api where
  "example_api =
     \<lparr>variant_list = [[1, 0], [0, 1]],
      indiv_list = [''HG1'', ''HG2''],
      popu_list = [''GBR'', ''FIN''],
      variant_name_list = [''1:99:100'', ''1:204:205''],
      ancestry_dict = [(''HG1'', ''GBR''), (''HG2'', ''FIN''), (''HG9'', ''CHS'')],
      ancestry_list = [''CHS'', ''FIN'', ''GBR'']\<rparr>"

definition repeated_id_api :: api where
  "repeated_id_api =
     \<lparr>variant_list = [[1, 0], [1, 0]],
      indiv_list = [''HG1'', ''HG1''],
      popu_list = [''GBR'', ''FIN''],
      variant_name_list = [''1:99:100'', ''1:204:205''],
      ancestry_dict = [(''HG1'', ''FIN'')],
      ancestry_list = [''FIN'']\<rparr>"

section \<open>Properties\<close>

lemma list_index_notin: "x \<notin> set xs \<Longrightarrow> list_index xs x = Inl ValueError"
  by (induction xs) auto

lemma list_index_in:
  "x \<in> set xs \<Longrightarrow> \<exists>i. list_index xs x = Inr i \<and> i < length xs \<and> xs ! i = x"
  by (induction xs) auto

lemma list_index_Inr:
  "list_index xs x = Inr i \<Longrightarrow> i < length xs \<and> xs ! i = x"
  by (induction xs arbitrary: i) (auto split: if_splits sum.splits)

lemma list_index_Inl: "list_index xs x = Inl e \<Longrightarrow> e = ValueError \<and> x \<notin> set xs"
  by (induction xs) (auto split: if_splits sum.splits)

lemma list_index_distinct:
  "distinct xs \<Longrightarrow> i < length xs \<Longrightarrow> list_index xs (xs ! i) = Inr i"
  by (induction xs arbitrary: i) (auto simp: nth_Cons split: nat.splits)

lemma keys_fromkeys_aux:
  "distinct (map fst d) \<Longrightarrow>
   distinct (map fst (foldl (\<lambda>d k. AList.update k v d) d ks)) \<and>
   set (map fst (foldl (\<lambda>d k. AList.update k v d) d ks)) = set (map fst d) \<union> set ks"
proof (induction ks arbitrary: d)
  case Nil
  then show ?case by auto
next
  case (Cons k ks)
  have d: "distinct (map fst (AList.update k v d))"
    using Cons.prems by (simp add: distinct_update)
  show ?case using Cons.IH[OF d] by (auto simp: dom_update)
qed

lemma update_values: "snd ` set (AList.update k v d) \<subseteq> insert v (snd ` set d)"
  by (induction d) auto

lemma values_fromkeys_aux:
  "snd ` set (foldl (\<lambda>d k. AList.update k v d) d ks) \<subseteq> insert v (snd ` set d)"
proof (induction ks arbitrary: d)
  case Nil
  then show ?case by auto
next
  case (Cons k ks)
  show ?case using Cons.IH[of "AList.update k v d"] update_values[of k v d] by auto
qed

lemma distinct_fromkeys: "distinct (map fst (dict_fromkeys ks v))"
  using keys_fromkeys_aux[of "[]" v ks] by (simp add: dict_fromkeys_def)

lemma set_fromkeys: "set (map fst (dict_fromkeys ks v)) = set ks"
  using keys_fromkeys_aux[of "[]" v ks] by (simp add: dict_fromkeys_def)

lemma values_fromkeys: "(k, c) \<in> set (dict_fromkeys ks v) \<Longrightarrow> c = v"
  using values_fromkeys_aux[of v "[]" ks] by (force simp add: dict_fromkeys_def)

lemma fromkeys_distinct_aux:
  "distinct (map fst d @ ks) \<Longrightarrow>
   foldl (\<lambda>d k. AList.update k v d) d ks = d @ map (\<lambda>k. (k, v)) ks"
proof (induction ks arbitrary: d)
  case Nil
  then show ?case by simp
next
  case (Cons k ks)
  have "k \<notin> fst ` set d" using Cons.prems by auto
  then have u: "AList.update k v d = d @ [(k, v)]"
    by (induction d) auto
  have "distinct (map fst (d @ [(k, v)]) @ ks)" using Cons.prems by auto
  from Cons.IH[OF this] u show ?case by simp
qed

lemma fromkeys_distinct: "distinct ks \<Longrightarrow> dict_fromkeys ks v = map (\<lambda>k. (k, v)) ks"
  using fromkeys_distinct_aux[of "[]" ks v] by (simp add: dict_fromkeys_def)

lemma for_loop_append:
  "for_loop body (xs @ ys) s =
     (case for_loop body xs s of Inl e \<Rightarrow> Inl e | Inr s' \<Rightarrow> for_loop body ys s')"
  by (induction xs arbitrary: s) (auto split: sum.splits)

lemma for_loop_invariant:
  assumes "for_loop body xs s = Inr s'"
    and "P s"
    and "\<And>x t t'. x \<in> set xs \<Longrightarrow> P t \<Longrightarrow> body x t = Inr t' \<Longrightarrow> P t'"
  shows "P s'"
  using assms
proof (induction xs arbitrary: s)
  case Nil
  then show ?case by simp
next
  case (Cons x xs)
  from Cons.prems(1) obtain t where t: "body x s = Inr t" and r: "for_loop body xs t = Inr s'"
    by (auto split: sum.splits)
  have "P t" using Cons.prems(2,3) t by auto
  then show ?case using Cons.IH[OF r] Cons.prems(3) by auto
qed

lemma for_loop_total:
  assumes "P s"
    and "\<And>x t. x \<in> set xs \<Longrightarrow> P t \<Longrightarrow> \<exists>t'. body x t = Inr t' \<and> P t'"
  shows "\<exists>s'. for_loop body xs s = Inr s' \<and> P s'"
  using assms
proof (induction xs arbitrary: s)
  case Nil
  then show ?case by simp
next
  case (Cons x xs)
  from Cons.prems obtain t where t: "body x s = Inr t" "P t" by force
  from Cons.IH[of t] t(2) Cons.prems(2) obtain s' where "for_loop body xs t = Inr s'" "P s'"
    by auto
  then show ?case using t by auto
qed

lemma ignore_row_cases:
  "ignore_row j d (idx, row) ign = Inr ign' \<Longrightarrow>
     ign' = ign \<or> (ign' = ign @ [idx] \<and> idx \<notin> set ign)"
  by (auto simp: ignore_row_def split: if_splits sum.splits)

lemma ignore_row_total:
  "idx \<in> set ign \<or> j < length row \<Longrightarrow>
   ignore_row j d (idx, row) ign =
     Inr (if idx \<notin> set ign \<and> row ! j \<noteq> d then ign @ [idx] else ign)"
  by (auto simp: ignore_row_def list_get_def)

lemma scan_rows_Inr:
  assumes "for_loop (ignore_row j d) rows ign = Inr ign'"
  shows "(\<exists>ext. ign' = ign @ ext) \<and> set ign' \<subseteq> set ign \<union> fst ` set rows
         \<and> (distinct ign \<longrightarrow> distinct ign')"
proof -
  let ?P = "\<lambda>t. (\<exists>ext. t = ign @ ext) \<and> set t \<subseteq> set ign \<union> fst ` set rows
         \<and> (distinct ign \<longrightarrow> distinct t)"
  have "?P ign'"
  proof (rule for_loop_invariant[OF assms, where P = ?P])
    show "?P ign" by simp
  next
    fix x t t'
    assume x: "x \<in> set rows" and t: "?P t" and b: "ignore_row j d x t = Inr t'"
    obtain idx row where xe: "x = (idx, row)" by (cases x)
    from x have i: "idx \<in> fst ` set rows" unfolding xe by force
    from ignore_row_cases[OF b[unfolded xe]] have "t' = t \<or> (t' = t @ [idx] \<and> idx \<notin> set t)" .
    then show "?P t'"
    proof
      assume "t' = t" then show ?thesis using t by simp
    next
      assume a: "t' = t @ [idx] \<and> idx \<notin> set t"
      from t obtain ext where "t = ign @ ext" by blast
      then have "t' = ign @ (ext @ [idx])" using a by simp
      then have 1: "\<exists>ext. t' = ign @ ext" by blast
      have 2: "set t' \<subseteq> set ign \<union> fst ` set rows" using a t i by auto
      have 3: "distinct ign \<longrightarrow> distinct t'" using a t by auto
      show ?thesis using 1 2 3 by blast
    qed
  qed
  then show ?thesis .
qed

lemma scan_rows_total:
  assumes "\<forall>(idx, row) \<in> set rows. idx \<in> set ign \<or> j < length row"
  shows "\<exists>ign'. for_loop (ignore_row j d) rows ign = Inr ign' \<and>
           set ign' = set ign \<union> {idx. \<exists>row. (idx, row) \<in> set rows \<and> row ! j \<noteq> d}"
  using assms
proof (induction rows arbitrary: ign)
  case Nil
  then show ?case by simp
next
  case (Cons x rows)
  obtain idx row where xe: "x = (idx, row)" by (cases x)
  let ?t = "if idx \<notin> set ign \<and> row ! j \<noteq> d then ign @ [idx] else ign"
  have b: "ignore_row j d x ign = Inr ?t"
    unfolding xe using Cons.prems by (intro ignore_row_total) (auto simp: xe)
  have "\<forall>(idx, row) \<in> set rows. idx \<in> set ?t \<or> j < length row"
    using Cons.prems by auto
  from Cons.IH[OF this] obtain ign' where
    r: "for_loop (ignore_row j d) rows ?t = Inr ign'" and
    s: "set ign' = set ?t \<union> {idx. \<exists>row. (idx, row) \<in> set rows \<and> row ! j \<noteq> d}"
    by blast
  have "for_loop (ignore_row j d) (x # rows) ign = Inr ign'"
    using b r by simp
  moreover have "set ign' = set ign \<union> {i. \<exists>row. (i, row) \<in> set (x # rows) \<and> row ! j \<noteq> d}"
    unfolding s xe by auto
  ultimately show ?case by blast
qed

lemma fst_set_enumerate: "fst ` set (enumerate n xs) = {n..<n + length xs}"
  by (metis list.set_map map_fst_enumerate set_upt)

lemma ignore_constraint_Inr:
  assumes "ignore_constraint a c ign = Inr ign'"
  shows "(\<exists>ext. ign' = ign @ ext) \<and> set ign' \<subseteq> set ign \<union> {..<length (variant_list a)}
         \<and> (distinct ign \<longrightarrow> distinct ign')"
proof -
  obtain v d where c: "c = (v, d)" by (cases c)
  from assms obtain j where
    "for_loop (ignore_row j d) (enumerate 0 (variant_list a)) ign = Inr ign'"
    by (auto simp: ignore_constraint_def c split: sum.splits)
  from scan_rows_Inr[OF this] show ?thesis
    by (auto simp: fst_set_enumerate)
qed

lemma ignore_loop_Inr:
  assumes "for_loop (ignore_constraint a) cs ign = Inr ign'"
  shows "(\<exists>ext. ign' = ign @ ext) \<and> set ign' \<subseteq> set ign \<union> {..<length (variant_list a)}
         \<and> (distinct ign \<longrightarrow> distinct ign')"
proof -
  let ?P = "\<lambda>t. (\<exists>ext. t = ign @ ext) \<and> set t \<subseteq> set ign \<union> {..<length (variant_list a)}
         \<and> (distinct ign \<longrightarrow> distinct t)"
  have "?P ign'"
  proof (rule for_loop_invariant[OF assms, where P = ?P])
    show "?P ign" by simp
  next
    fix x t t'
    assume t: "?P t" and b: "ignore_constraint a x t = Inr t'"
    from t obtain ext where e: "t = ign @ ext" by blast
    from ignore_constraint_Inr[OF b] obtain ext' where e': "t' = t @ ext'"
      and s: "set t' \<subseteq> set t \<union> {..<length (variant_list a)}"
      and d: "distinct t \<longrightarrow> distinct t'" by blast
    have 1: "\<exists>ext. t' = ign @ ext" using e e' by simp
    have 2: "set t' \<subseteq> set ign \<union> {..<length (variant_list a)}" using s t by blast
    have 3: "distinct ign \<longrightarrow> distinct t'" using d t by blast
    show "?P t'" using 1 2 3 by blast
  qed
  then show ?thesis .
qed

lemma find_ignore_rows_Inr:
  "find_ignore_rows a sp = Inr ig \<Longrightarrow> distinct ig \<and> (\<forall>i \<in> set ig. i < length (variant_list a))"
  using ignore_loop_Inr[of a "zip (fst sp) (snd sp)" "[]" ig]
  by (auto simp: find_ignore_rows_def)

lemma set_enumerate_iff:
  "(i, x) \<in> set (enumerate n xs) \<longleftrightarrow> n \<le> i \<and> i < n + length xs \<and> xs ! (i - n) = x"
  by (auto simp: in_set_enumerate_eq)

lemma ignore_constraint_total:
  assumes "rows_aligned a" and "v \<in> set (variant_name_list a)"
  shows "\<exists>ign'. ignore_constraint a (v, d) ign = Inr ign' \<and>
           set ign' = set ign \<union> {i. i < length (variant_list a) \<and>
                                      \<not> satisfies a (v, d) (variant_list a ! i)}"
proof -
  from list_index_in[OF assms(2)] obtain j where
    j: "list_index (variant_name_list a) v = Inr j" "j < length (variant_name_list a)" by blast
  have al: "\<And>i row. (i, row) \<in> set (enumerate 0 (variant_list a)) \<Longrightarrow> j < length row"
    using assms(1) j(2) by (auto simp: rows_aligned_def list_all_iff set_enumerate_iff)
  then have "\<forall>(idx, row) \<in> set (enumerate 0 (variant_list a)). idx \<in> set ign \<or> j < length row"
    by blast
  from scan_rows_total[OF this, of d] obtain ign' where
    r: "for_loop (ignore_row j d) (enumerate 0 (variant_list a)) ign = Inr ign'" and
    s: "set ign' = set ign \<union> {idx. \<exists>row. (idx, row) \<in> set (enumerate 0 (variant_list a)) \<and> row ! j \<noteq> d}"
    by blast
  have "{idx. \<exists>row. (idx, row) \<in> set (enumerate 0 (variant_list a)) \<and> row ! j \<noteq> d}
        = {i. i < length (variant_list a) \<and> \<not> satisfies a (v, d) (variant_list a ! i)}"
    using al by (auto simp: satisfies_def j(1) set_enumerate_iff)
  with r s show ?thesis by (simp add: ignore_constraint_def j(1))
qed

lemma ignore_loop_total:
  assumes "rows_aligned a" and "\<forall>c \<in> set cs. fst c \<in> set (variant_name_list a)"
  shows "\<exists>ign'. for_loop (ignore_constraint a) cs ign = Inr ign' \<and>
           set ign' = set ign \<union> {i. i < length (variant_list a) \<and>
                                      \<not> list_all (\<lambda>c. satisfies a c (variant_list a ! i)) cs}"
  using assms(2)
proof (induction cs arbitrary: ign)
  case Nil
  then show ?case by simp
next
  case (Cons c cs)
  obtain v d where c: "c = (v, d)" by (cases c)
  have "v \<in> set (variant_name_list a)" using Cons.prems c by simp
  from ignore_constraint_total[OF assms(1) this, of d ign] obtain t where
    t: "ignore_constraint a c ign = Inr t" and
    st: "set t = set ign \<union> {i. i < length (variant_list a) \<and> \<not> satisfies a c (variant_list a ! i)}"
    unfolding c by blast
  have "\<forall>c \<in> set cs. fst c \<in> set (variant_name_list a)" using Cons.prems by simp
  from Cons.IH[OF this, of t] obtain ign' where
    r: "for_loop (ignore_constraint a) cs t = Inr ign'" and
    s: "set ign' = set t \<union> {i. i < length (variant_list a) \<and>
                                      \<not> list_all (\<lambda>c. satisfies a c (variant_list a ! i)) cs}"
    by blast
  have "for_loop (ignore_constraint a) (c # cs) ign = Inr ign'" using t r by simp
  moreover have "set ign' = set ign \<union> {i. i < length (variant_list a) \<and>
                     \<not> list_all (\<lambda>c. satisfies a c (variant_list a ! i)) (c # cs)}"
    unfolding s st by auto
  ultimately show ?case by blast
qed

lemma find_ignore_rows_total:
  assumes "rows_aligned a" and "set (fst sp) \<subseteq> set (variant_name_list a)"
  shows "\<exists>ig. find_ignore_rows a sp = Inr ig \<and>
           set ig = {i. i < length (variant_list a) \<and>
                        \<not> list_all (\<lambda>c. satisfies a c (variant_list a ! i)) (zip (fst sp) (snd sp))}"
proof -
  have "\<forall>c \<in> set (zip (fst sp) (snd sp)). fst c \<in> set (variant_name_list a)"
    using assms(2) by (auto dest: set_zip_leftD)
  from ignore_loop_total[OF assms(1) this, of "[]"] show ?thesis
    by (simp add: find_ignore_rows_def)
qed

lemma zip_snoc_ex: "\<exists>c. zip (xs @ [x]) (ys @ [y]) = zip xs ys @ [c]"
proof (induction xs arbitrary: ys)
  case Nil
  then show ?case by (cases ys) auto
next
  case (Cons a xs)
  show ?case
  proof (cases ys)
    case Nil
    then show ?thesis by (cases xs) auto
  next
    case (Cons b ys')
    then show ?thesis using Cons.IH[of ys'] by auto
  qed
qed

lemma find_ignore_rows_extend:
  assumes "find_ignore_rows a (vs, ds) = Inr ig"
    and "find_ignore_rows a (vs @ [v], ds @ [d]) = Inr ig'"
  shows "\<exists>ext. ig' = ig @ ext"
proof -
  from zip_snoc_ex[of vs v ds d] obtain c where c: "zip (vs @ [v]) (ds @ [d]) = zip vs ds @ [c]" ..
  from assms have "for_loop (ignore_constraint a) [c] ig = Inr ig'"
    by (simp add: find_ignore_rows_def c for_loop_append del: for_loop.simps)
  from ignore_loop_Inr[OF this] show ?thesis by blast
qed

lemma add_counts_Nil: "add_counts d [] = d"
  by (simp add: add_counts_def)

lemma keys_add_counts: "map fst (add_counts d ps) = map fst d"
  by (simp add: add_counts_def case_prod_beta comp_def)

lemma add_counts_append: "add_counts (add_counts d ps) qs = add_counts d (ps @ qs)"
  by (simp add: add_counts_def case_prod_beta comp_def)

lemma update_distinct_map:
  "distinct (map fst d) \<Longrightarrow> map_of d p = Some (c::int) \<Longrightarrow>
   AList.update p (c + 1) d = map (\<lambda>(k, c). (k, c + (if p = k then 1 else 0))) d"
proof (induction d)
  case Nil
  then show ?case by simp
next
  case (Cons x d)
  obtain k v where x: "x = (k, v)" by (cases x)
  show ?case
  proof (cases "k = p")
    case True
    then have "p \<notin> fst ` set d" using Cons.prems(1) x by auto
    then have "map (\<lambda>(k, c). (k, c + (if p = k then 1 else 0))) d = d"
      by (induction d) (auto simp: case_prod_beta)
    then show ?thesis using True Cons.prems x by simp
  next
    case False
    then show ?thesis using Cons x by simp
  qed
qed

lemma dict_incr_add_counts:
  assumes "distinct (map fst d)" and "p \<in> fst ` set d"
  shows "dict_incr d p = Inr (add_counts d [p])"
proof -
  from assms(2) obtain c where c: "map_of d p = Some c"
    by (metis domD dom_map_of_conv_image_fst)
  show ?thesis
    using update_distinct_map[OF assms(1) c]
    by (simp add: dict_incr_def c add_counts_def case_prod_beta)
qed

lemma counted_popus_Nil: "counted_popus a ig P [] = []"
  by (simp add: counted_popus_def)

lemma counted_popus_Cons:
  "counted_popus a ig P ((idx, row) # rows) =
     (if idx \<notin> set ig \<and> P row then popu_list a ! idx # counted_popus a ig P rows
      else counted_popus a ig P rows)"
  by (simp add: counted_popus_def)

lemma add_counts_Cons: "add_counts (add_counts d [p]) ps = add_counts d (p # ps)"
  by (simp add: add_counts_append)

lemma split_row_step:
  assumes j: "list_index (variant_name_list a) sv = Inr j" and sv: "sv \<noteq> []"
    and dw: "distinct (map fst w)" and dwo: "distinct (map fst wo)"
    and ok: "idx \<notin> set ig \<longrightarrow> idx < length (popu_list a) \<and> popu_list a ! idx \<in> fst ` set w
               \<and> popu_list a ! idx \<in> fst ` set wo \<and> j < length row"
  shows "split_row a ig (Some sv) (idx, row) (w, wo) =
     Inr (if idx \<in> set ig then (w, wo)
          else if row ! j = 1 then (add_counts w [popu_list a ! idx], wo)
          else (w, add_counts wo [popu_list a ! idx]))"
proof (cases "idx \<in> set ig")
  case True
  then show ?thesis by (simp add: split_row_def)
next
  case False
  with ok have 1: "idx < length (popu_list a)" and 2: "popu_list a ! idx \<in> fst ` set w"
    and 3: "popu_list a ! idx \<in> fst ` set wo" and 4: "j < length row" by auto
  show ?thesis
    using False 1 4 dict_incr_add_counts[OF dw 2] dict_incr_add_counts[OF dwo 3]
    by (simp add: split_row_def list_get_def truthy_def j sv)
qed

lemma split_loop:
  assumes j: "list_index (variant_name_list a) sv = Inr j" and sv: "sv \<noteq> []"
    and dw: "distinct (map fst w)" and dwo: "distinct (map fst wo)"
    and ok: "\<forall>(idx, row) \<in> set rows. idx \<notin> set ig \<longrightarrow>
               idx < length (popu_list a) \<and> popu_list a ! idx \<in> fst ` set w
               \<and> popu_list a ! idx \<in> fst ` set wo \<and> j < length row"
  shows "for_loop (split_row a ig (Some sv)) rows (w, wo) =
     Inr (add_counts w (counted_popus a ig (\<lambda>row. row ! j = 1) rows),
          add_counts wo (counted_popus a ig (\<lambda>row. row ! j \<noteq> 1) rows))"
  using dw dwo ok
proof (induction rows arbitrary: w wo)
  case Nil
  then show ?case by (simp add: counted_popus_Nil add_counts_Nil)
next
  case (Cons x rows)
  obtain idx row where x: "x = (idx, row)" by (cases x)
  have okx: "idx \<notin> set ig \<longrightarrow> idx < length (popu_list a) \<and> popu_list a ! idx \<in> fst ` set w
               \<and> popu_list a ! idx \<in> fst ` set wo \<and> j < length row"
    using Cons.prems(3) x by simp
  note step = split_row_step[OF j sv Cons.prems(1,2) okx]
  have okr: "\<forall>(idx, row) \<in> set rows. idx \<notin> set ig \<longrightarrow>
               idx < length (popu_list a) \<and> popu_list a ! idx \<in> fst ` set w
               \<and> popu_list a ! idx \<in> fst ` set wo \<and> j < length row"
    using Cons.prems(3) by simp
  have k: "\<And>d p. fst ` set (add_counts d p) = fst ` set d"
    by (metis keys_add_counts list.set_map)
  show ?case
  proof (cases "idx \<in> set ig")
    case True
    then show ?thesis
      using step Cons.IH[OF Cons.prems(1,2) okr] by (simp add: x counted_popus_Cons)
  next
    case False
    show ?thesis
    proof (cases "row ! j = 1")
      case True
      have d': "distinct (map fst (add_counts w [popu_list a ! idx]))"
        using Cons.prems(1) by (simp add: keys_add_counts)
      have ok': "\<forall>(idx', row) \<in> set rows. idx' \<notin> set ig \<longrightarrow>
               idx' < length (popu_list a)
               \<and> popu_list a ! idx' \<in> fst ` set (add_counts w [popu_list a ! idx])
               \<and> popu_list a ! idx' \<in> fst ` set wo \<and> j < length row"
        using okr by (simp add: k)
      show ?thesis
        using step \<open>idx \<notin> set ig\<close> True Cons.IH[OF d' Cons.prems(2) ok']
        by (simp add: x counted_popus_Cons add_counts_Cons)
    next
      case F: False
      have d': "distinct (map fst (add_counts wo [popu_list a ! idx]))"
        using Cons.prems(2) by (simp add: keys_add_counts)
      have ok': "\<forall>(idx', row) \<in> set rows. idx' \<notin> set ig \<longrightarrow>
               idx' < length (popu_list a)
               \<and> popu_list a ! idx' \<in> fst ` set w
               \<and> popu_list a ! idx' \<in> fst ` set (add_counts wo [popu_list a ! idx]) \<and> j < length row"
        using okr by (simp add: k)
      show ?thesis
        using step \<open>idx \<notin> set ig\<close> F Cons.IH[OF Cons.prems(1) d' ok']
        by (simp add: x counted_popus_Cons add_counts_Cons)
    qed
  qed
qed

lemma count_cell_step:
  assumes "n < length wl" and "distinct (map fst (wl ! n))" and "p \<in> fst ` set (wl ! n)"
  shows "count_cell p (n, v) wl =
           Inr (if v = 1 then wl[n := add_counts (wl ! n) [p]] else wl)"
  using assms dict_incr_add_counts[OF assms(2,3)]
  by (simp add: count_cell_def list_get_def)

lemma count_cells_loop:
  assumes "n + length row \<le> length wl"
    and "\<forall>d \<in> set wl. distinct (map fst d) \<and> p \<in> fst ` set d"
  shows "for_loop (count_cell p) (enumerate n row) wl =
     Inr (map (\<lambda>j. if n \<le> j \<and> j < n + length row \<and> row ! (j - n) = 1
                    then add_counts (wl ! j) [p] else wl ! j) [0..<length wl])"
  using assms
proof (induction row arbitrary: n wl)
  case Nil
  have "(\<lambda>j. if n \<le> j \<and> j < n + length ([]::int list) \<and> ([]::int list) ! (j - n) = 1
              then add_counts (wl ! j) [p] else wl ! j) = (\<lambda>j. wl ! j)"
    by (rule ext) auto
  then show ?case by (simp add: map_nth)
next
  case (Cons v row)
  have n: "n < length wl" using Cons.prems(1) by simp
  have dn: "distinct (map fst (wl ! n))" and pn: "p \<in> fst ` set (wl ! n)"
    using Cons.prems(2) n by auto
  let ?wl1 = "if v = 1 then wl[n := add_counts (wl ! n) [p]] else wl"
  have step: "count_cell p (n, v) wl = Inr ?wl1"
    by (rule count_cell_step[OF n dn pn])
  have len: "length ?wl1 = length wl" by simp
  have l1: "Suc n + length row \<le> length ?wl1" using Cons.prems(1) by simp
  have k: "fst ` set (add_counts (wl ! n) [p]) = fst ` set (wl ! n)"
    by (metis keys_add_counts list.set_map)
  have inv: "\<forall>d \<in> set ?wl1. distinct (map fst d) \<and> p \<in> fst ` set d"
  proof
    fix d assume "d \<in> set ?wl1"
    then have "d \<in> set wl \<or> d = add_counts (wl ! n) [p]"
      using set_update_subset_insert[of wl n "add_counts (wl ! n) [p]"]
      by (auto split: if_splits)
    then show "distinct (map fst d) \<and> p \<in> fst ` set d"
      using Cons.prems(2) dn pn k by (auto simp: keys_add_counts)
  qed
  have eq: "map (\<lambda>j. if Suc n \<le> j \<and> j < Suc n + length row \<and> row ! (j - Suc n) = 1
                    then add_counts (?wl1 ! j) [p] else ?wl1 ! j) [0..<length ?wl1]
        = map (\<lambda>j. if n \<le> j \<and> j < n + length (v # row) \<and> (v # row) ! (j - n) = 1
                    then add_counts (wl ! j) [p] else wl ! j) [0..<length wl]"
    unfolding len
  proof (rule map_cong[OF refl])
    fix j assume "j \<in> set [0..<length wl]"
    then have jl: "j < length wl" by simp
    show "(if Suc n \<le> j \<and> j < Suc n + length row \<and> row ! (j - Suc n) = 1
                    then add_counts (?wl1 ! j) [p] else ?wl1 ! j)
        = (if n \<le> j \<and> j < n + length (v # row) \<and> (v # row) ! (j - n) = 1
                    then add_counts (wl ! j) [p] else wl ! j)"
    proof (cases "j = n")
      case True
      then show ?thesis using n by simp
    next
      case False
      then have "?wl1 ! j = wl ! j" by simp
      moreover have "Suc n \<le> j \<Longrightarrow> (v # row) ! (j - n) = row ! (j - Suc n)"
        by (simp add: nth_Cons split: nat.splits) (metis Suc_diff_Suc Suc_le_lessD old.nat.inject)
      ultimately show ?thesis using False by auto
    qed
  qed
  show ?case
    using step Cons.IH[OF l1 inv] eq by (simp add: enumerate_simps del: length_list_update)
qed

lemma count_row_step:
  assumes K: "\<forall>d \<in> set wl. map fst d = K" and dK: "distinct K"
    and ok: "idx \<notin> set ig \<longrightarrow> idx < length (popu_list a) \<and> length row \<le> length wl
               \<and> popu_list a ! idx \<in> set K"
  shows "count_row a ig (idx, row) wl =
     Inr (if idx \<in> set ig then wl
          else map (\<lambda>j. if j < length row \<and> row ! j = 1
                         then add_counts (wl ! j) [popu_list a ! idx] else wl ! j)
                 [0..<length wl])"
proof (cases "idx \<in> set ig")
  case True
  then show ?thesis by (simp add: count_row_def)
next
  case False
  with ok have 1: "idx < length (popu_list a)" and 2: "0 + length row \<le> length wl"
    and 3: "popu_list a ! idx \<in> set K" by auto
  have inv: "\<forall>d \<in> set wl. distinct (map fst d) \<and> popu_list a ! idx \<in> fst ` set d"
  proof
    fix d assume d: "d \<in> set wl"
    then have "map fst d = K" using K by blast
    then show "distinct (map fst d) \<and> popu_list a ! idx \<in> fst ` set d"
      using dK 3 by (metis list.set_map)
  qed
  show ?thesis
    using False 1 count_cells_loop[OF 2 inv]
    by (simp add: count_row_def list_get_def)
qed

lemma count_rows_loop:
  assumes K: "\<forall>d \<in> set wl. map fst d = K" and dK: "distinct K"
    and ok: "\<forall>(idx, row) \<in> set rows. idx \<notin> set ig \<longrightarrow>
               idx < length (popu_list a) \<and> length row \<le> length wl
               \<and> popu_list a ! idx \<in> set K"
  shows "for_loop (count_row a ig) rows wl =
     Inr (map (\<lambda>j. add_counts (wl ! j)
                      (counted_popus a ig (\<lambda>row. j < length row \<and> row ! j = 1) rows))
            [0..<length wl])"
  using K ok
proof (induction rows arbitrary: wl)
  case Nil
  then show ?case by (simp add: counted_popus_Nil add_counts_Nil map_nth)
next
  case (Cons x rows)
  obtain idx row where x: "x = (idx, row)" by (cases x)
  have okx: "idx \<notin> set ig \<longrightarrow> idx < length (popu_list a) \<and> length row \<le> length wl
               \<and> popu_list a ! idx \<in> set K"
    using Cons.prems(2) x by simp
  note step = count_row_step[OF Cons.prems(1) dK okx]
  let ?wl1 = "if idx \<in> set ig then wl
          else map (\<lambda>j. if j < length row \<and> row ! j = 1
                         then add_counts (wl ! j) [popu_list a ! idx] else wl ! j)
                 [0..<length wl]"
  have len: "length ?wl1 = length wl" by simp
  have K1: "\<forall>d \<in> set ?wl1. map fst d = K"
  proof
    fix d assume "d \<in> set ?wl1"
    then have "d \<in> set wl \<or> (\<exists>j < length wl. d = add_counts (wl ! j) [popu_list a ! idx])"
      by (auto split: if_splits)
    then show "map fst d = K"
      using Cons.prems(1) by (auto simp: keys_add_counts)
  qed
  have ok1: "\<forall>(idx, row) \<in> set rows. idx \<notin> set ig \<longrightarrow>
               idx < length (popu_list a) \<and> length row \<le> length ?wl1
               \<and> popu_list a ! idx \<in> set K"
    unfolding len using Cons.prems(2) by simp
  have eq: "map (\<lambda>j. add_counts (?wl1 ! j)
                      (counted_popus a ig (\<lambda>row. j < length row \<and> row ! j = 1) rows))
            [0..<length ?wl1]
        = map (\<lambda>j. add_counts (wl ! j)
                      (counted_popus a ig (\<lambda>row. j < length row \<and> row ! j = 1) (x # rows)))
            [0..<length wl]"
    unfolding len
  proof (rule map_cong[OF refl])
    fix j assume "j \<in> set [0..<length wl]"
    then have jl: "j < length wl" by simp
    show "add_counts (?wl1 ! j)
            (counted_popus a ig (\<lambda>row. j < length row \<and> row ! j = 1) rows)
        = add_counts (wl ! j)
            (counted_popus a ig (\<lambda>row. j < length row \<and> row ! j = 1) (x # rows))"
      using jl by (simp add: x counted_popus_Cons add_counts_Cons)
  qed
  show ?case
    using step Cons.IH[OF K1 ok1] eq by (simp add: x del: length_map)
qed

lemma map_of_add_counts:
  "map_of (add_counts d ps) p = map_option (\<lambda>c. c + int (count_list ps p)) (map_of d p)"
  by (induction d) (auto simp: add_counts_def)

lemma sum_indicator_distinct:
  "distinct (map fst d) \<Longrightarrow>
   (\<Sum>x\<leftarrow>d. (if p = fst x then 1 else 0)) = (if p \<in> fst ` set d then 1 else (0::int))"
  by (induction d) auto

lemma sum_add_counts:
  assumes "distinct (map fst d)"
  shows "sum_list (map snd (add_counts d ps)) =
           sum_list (map snd d) + int (length (filter (\<lambda>p. p \<in> fst ` set d) ps))"
proof (induction ps)
  case Nil
  then show ?case by (simp add: add_counts_def case_prod_beta comp_def)
next
  case (Cons p ps)
  have "sum_list (map snd (add_counts d (p # ps))) =
          (\<Sum>x\<leftarrow>d. snd x + int (count_list ps (fst x)) + (if p = fst x then 1 else 0))"
    by (simp add: add_counts_def case_prod_beta comp_def) (rule arg_cong[where f = sum_list], auto)
  also have "\<dots> = (\<Sum>x\<leftarrow>d. snd x + int (count_list ps (fst x))) + (\<Sum>x\<leftarrow>d. (if p = fst x then 1 else 0))"
    by (simp add: sum_list_addf)
  also have "(\<Sum>x\<leftarrow>d. snd x + int (count_list ps (fst x))) = sum_list (map snd (add_counts d ps))"
    by (simp add: add_counts_def case_prod_beta comp_def)
  finally show ?case
    using Cons.IH sum_indicator_distinct[OF assms, of p] by simp
qed

lemma map_of_fromkeys: "map_of (dict_fromkeys ks v) p = (if p \<in> set ks then Some v else None)"
proof (cases "p \<in> set ks")
  case True
  then have "p \<in> fst ` set (dict_fromkeys ks v)" using set_fromkeys[of ks v] by simp
  then obtain c where c: "(p, c) \<in> set (dict_fromkeys ks v)" by force
  then have "c = v" by (rule values_fromkeys)
  with c have "map_of (dict_fromkeys ks v) p = Some v"
    using distinct_fromkeys[of ks v] by simp
  then show ?thesis using True by simp
next
  case False
  then have "p \<notin> fst ` set (dict_fromkeys ks v)" using set_fromkeys[of ks v] by simp
  then show ?thesis using False by (simp add: map_of_eq_None_iff)
qed

lemma sum_fromkeys_zero: "sum_list (map snd (dict_fromkeys ks (0::int))) = 0"
proof -
  have "\<forall>x \<in> set (map snd (dict_fromkeys ks (0::int))). x = 0"
    using values_fromkeys[of _ _ ks "0::int"] by auto
  then have "map snd (dict_fromkeys ks (0::int)) = replicate (length (dict_fromkeys ks (0::int))) 0"
    by (intro replicate_eqI) auto
  then show ?thesis by (metis sum_list_replicate mult_zero_right)
qed

lemma enumerate_as_map: "enumerate n xs = map (\<lambda>i. (i, xs ! (i - n))) [n..<n + length xs]"
  by (rule nth_equalityI) (auto simp: nth_enumerate_eq)

lemma counted_popus_enumerate:
  "counted_popus a ig P (enumerate 0 xs) =
     map (\<lambda>i. popu_list a ! i) (filter (\<lambda>i. i \<notin> set ig \<and> P (xs ! i)) [0..<length xs])"
  by (simp add: counted_popus_def enumerate_as_map filter_map comp_def)

lemma count_list_map_filter:
  "count_list (map f xs) p = length (filter (\<lambda>x. f x = p) xs)"
  by (induction xs) auto

lemma count_counted_popus:
  "count_list (counted_popus a ig (\<lambda>row. (row ! j = 1) = has) (enumerate 0 (variant_list a))) p =
     length (rows_with a ig j p has)"
  by (simp add: counted_popus_enumerate count_list_map_filter rows_with_def conj_ac)

lemma length_counted_popus_split:
  "length (counted_popus a ig (\<lambda>row. row ! j = 1) rows)
   + length (counted_popus a ig (\<lambda>row. row ! j \<noteq> 1) rows)
   = length (filter (\<lambda>r. fst r \<notin> set ig) rows)"
  by (induction rows) (auto simp: counted_popus_def)

lemma length_filter_enumerate:
  "length (filter (\<lambda>r. fst r \<notin> set ig) (enumerate 0 xs)) =
   length (filter (\<lambda>i. i \<notin> set ig) [0..<length xs])"
  by (simp add: enumerate_as_map filter_map comp_def)

lemma enumerated_row_ok:
  assumes "rows_aligned a" and "popu_aligned a" and "popu_known a"
    and "(idx, row) \<in> set (enumerate 0 (variant_list a))"
  shows "idx < length (popu_list a) \<and> popu_list a ! idx \<in> set (ancestry_list a)
         \<and> length row = length (variant_name_list a)"
proof -
  from assms(4) have i: "idx < length (variant_list a)" and r: "row \<in> set (variant_list a)"
    by (auto simp: set_enumerate_iff)
  from i assms(2) have 1: "idx < length (popu_list a)" by (simp add: popu_aligned_def)
  then have "popu_list a ! idx \<in> set (popu_list a)" by simp
  with assms(3) have 2: "popu_list a ! idx \<in> set (ancestry_list a)"
    by (simp add: popu_known_def list_all_iff)
  from r assms(1) have 3: "length row = length (variant_name_list a)"
    by (simp add: rows_aligned_def list_all_iff)
  from 1 2 3 show ?thesis by simp
qed

lemma split_subset_closed:
  assumes al: "rows_aligned a" and pa: "popu_aligned a" and pk: "popu_known a"
    and j: "list_index (variant_name_list a) X = Inr j" and X: "X \<noteq> []"
    and ig: "find_ignore_rows a sp = Inr ig"
  shows "split_subset a sp (Some X) =
     Inr (add_counts (dict_fromkeys (ancestry_list a) 0)
            (counted_popus a ig (\<lambda>row. row ! j = 1) (enumerate 0 (variant_list a))),
          add_counts (dict_fromkeys (ancestry_list a) 0)
            (counted_popus a ig (\<lambda>row. row ! j \<noteq> 1) (enumerate 0 (variant_list a))))"
proof -
  let ?Z = "dict_fromkeys (ancestry_list a) (0::int)"
  have jl: "j < length (variant_name_list a)" using list_index_Inr[OF j] by simp
  have k: "fst ` set ?Z = set (ancestry_list a)" using set_fromkeys[of "ancestry_list a" "0::int"] by simp
  have ok: "\<forall>(idx, row) \<in> set (enumerate 0 (variant_list a)). idx \<notin> set ig \<longrightarrow>
               idx < length (popu_list a) \<and> popu_list a ! idx \<in> fst ` set ?Z
               \<and> popu_list a ! idx \<in> fst ` set ?Z \<and> j < length row"
    using enumerated_row_ok[OF al pa pk] jl unfolding k by fastforce
  show ?thesis
    using split_loop[OF j X distinct_fromkeys distinct_fromkeys ok]
    by (simp add: split_subset_def ig)
qed

lemma find_next_closed:
  assumes al: "rows_aligned a" and pa: "popu_aligned a" and pk: "popu_known a"
    and ig: "find_ignore_rows a sp = Inr ig"
  shows "find_next_variant_counts a sp =
     Inr (map (\<lambda>j. add_counts (dict_fromkeys (ancestry_list a) 0)
                      (counted_popus a ig (\<lambda>row. row ! j = 1) (enumerate 0 (variant_list a))))
            [0..<length (variant_name_list a)])"
proof -
  let ?Z = "dict_fromkeys (ancestry_list a) (0::int)"
  let ?wl = "map (\<lambda>variant_names. ?Z) (variant_name_list a)"
  let ?K = "map fst ?Z"
  have K: "\<forall>d \<in> set ?wl. map fst d = ?K" by auto
  have dK: "distinct ?K" by (rule distinct_fromkeys)
  have sK: "set ?K = set (ancestry_list a)" by (rule set_fromkeys)
  have ok: "\<forall>(idx, row) \<in> set (enumerate 0 (variant_list a)). idx \<notin> set ig \<longrightarrow>
               idx < length (popu_list a) \<and> length row \<le> length ?wl
               \<and> popu_list a ! idx \<in> set ?K"
    using enumerated_row_ok[OF al pa pk] unfolding sK by fastforce
  have eq: "map (\<lambda>j. add_counts (?wl ! j)
                      (counted_popus a ig (\<lambda>row. j < length row \<and> row ! j = 1)
                         (enumerate 0 (variant_list a))))
            [0..<length ?wl]
      = map (\<lambda>j. add_counts ?Z
                      (counted_popus a ig (\<lambda>row. row ! j = 1) (enumerate 0 (variant_list a))))
            [0..<length (variant_name_list a)]"
  proof (rule map_cong)
    show "[0..<length ?wl] = [0..<length (variant_name_list a)]" by simp
  next
    fix j assume "j \<in> set [0..<length (variant_name_list a)]"
    then have jl: "j < length (variant_name_list a)" by simp
    have "filter (\<lambda>r. fst r \<notin> set ig \<and> j < length (snd r) \<and> snd r ! j = 1)
             (enumerate 0 (variant_list a))
        = filter (\<lambda>r. fst r \<notin> set ig \<and> snd r ! j = 1) (enumerate 0 (variant_list a))"
    proof (rule filter_cong[OF refl])
      fix r assume "r \<in> set (enumerate 0 (variant_list a))"
      then have "length (snd r) = length (variant_name_list a)"
        using enumerated_row_ok[OF al pa pk, of "fst r" "snd r"] by simp
      then show "(fst r \<notin> set ig \<and> j < length (snd r) \<and> snd r ! j = 1)
                 = (fst r \<notin> set ig \<and> snd r ! j = 1)" using jl by simp
    qed
    then show "add_counts (?wl ! j)
            (counted_popus a ig (\<lambda>row. j < length row \<and> row ! j = 1)
               (enumerate 0 (variant_list a)))
        = add_counts ?Z
            (counted_popus a ig (\<lambda>row. row ! j = 1) (enumerate 0 (variant_list a)))"
      using jl by (simp add: counted_popus_def)
  qed
  show ?thesis
    using count_rows_loop[OF K dK ok] eq
    by (simp add: find_next_variant_counts_def ig del: length_map)
qed

lemma split_subset_error:
  "find_ignore_rows a sp = Inl e \<Longrightarrow> split_subset a sp sv = Inl e"
  by (simp add: split_subset_def)

lemma find_next_error:
  "find_ignore_rows a sp = Inl e \<Longrightarrow> find_next_variant_counts a sp = Inl e"
  by (simp add: find_next_variant_counts_def)

text \<open>
  C1. The candidate scanner refines the conditioned split: for every split path and every
  variant \<open>X\<close> of \<open>variant_name_list\<close>, the entry of \<open>find_next_variant_counts\<close> at the
  column of \<open>X\<close> is the first (has variant) mapping of \<open>split_subset\<close> for the same path
  and candidate \<open>X\<close>; when the path makes the row filter raise, both raise the same
  error. The state satisfies the invariants of the data model, and \<open>X\<close> is not the empty
  string (no variant name is: a name is \<^verbatim>\<open>chrom:start:end\<close>).
\<close>

theorem find_next_variant_counts_entry:
  assumes "rows_aligned a" and "popu_aligned a" and "popu_known a"
    and "X \<in> set (variant_name_list a)" and "X \<noteq> []"
  shows "\<exists>j. list_index (variant_name_list a) X = Inr j \<and>
           (case find_ignore_rows a sp of
              Inl e \<Rightarrow> find_next_variant_counts a sp = Inl e \<and> split_subset a sp (Some X) = Inl e
            | Inr ig \<Rightarrow>
                (\<exists>w_variant_list w_variant_dict wo_variant_dict.
                   find_next_variant_counts a sp = Inr w_variant_list \<and>
                   split_subset a sp (Some X) = Inr (w_variant_dict, wo_variant_dict) \<and>
                   length w_variant_list = length (variant_name_list a) \<and>
                   j < length w_variant_list \<and>
                   w_variant_list ! j = w_variant_dict))"
proof -
  from list_index_in[OF assms(4)] obtain j where
    j: "list_index (variant_name_list a) X = Inr j" and jl: "j < length (variant_name_list a)"
    by blast
  have "case find_ignore_rows a sp of
              Inl e \<Rightarrow> find_next_variant_counts a sp = Inl e \<and> split_subset a sp (Some X) = Inl e
            | Inr ig \<Rightarrow>
                (\<exists>w_variant_list w_variant_dict wo_variant_dict.
                   find_next_variant_counts a sp = Inr w_variant_list \<and>
                   split_subset a sp (Some X) = Inr (w_variant_dict, wo_variant_dict) \<and>
                   length w_variant_list = length (variant_name_list a) \<and>
                   j < length w_variant_list \<and>
                   w_variant_list ! j = w_variant_dict)"
  proof (cases "find_ignore_rows a sp")
    case (Inl e)
    then show ?thesis by (simp add: split_subset_error find_next_error)
  next
    case (Inr ig)
    show ?thesis
      using jl
      by (simp add: Inr find_next_closed[OF assms(1,2,3) Inr]
          split_subset_closed[OF assms(1,2,3) j assms(5) Inr])
  qed
  with j show ?thesis by blast
qed

theorem find_next_variant_counts_entry_witness:
  "rows_aligned scenario \<and> popu_aligned scenario \<and> popu_known scenario \<and>
   ''V2'' \<in> set (variant_name_list scenario) \<and>
   find_ignore_rows scenario ([''V1''], [1]) = Inr [2, 3] \<and>
   find_next_variant_counts scenario ([''V1''], [1]) =
     Inr [[(''A'', 2), (''B'', 0)], [(''A'', 1), (''B'', 0)]] \<and>
   split_subset scenario ([''V1''], [1]) (Some ''V2'') =
     Inr ([(''A'', 1), (''B'', 0)], [(''A'', 1), (''B'', 0)]) \<and>
   (\<exists>j. list_index (variant_name_list scenario) ''V2'' = Inr j \<and>
      (case find_ignore_rows scenario ([''V1''], [1]) of
         Inl e \<Rightarrow> find_next_variant_counts scenario ([''V1''], [1]) = Inl e \<and>
                 split_subset scenario ([''V1''], [1]) (Some ''V2'') = Inl e
       | Inr ig \<Rightarrow>
           (\<exists>w_variant_list w_variant_dict wo_variant_dict.
              find_next_variant_counts scenario ([''V1''], [1]) = Inr w_variant_list \<and>
              split_subset scenario ([''V1''], [1]) (Some ''V2'') =
                Inr (w_variant_dict, wo_variant_dict) \<and>
              length w_variant_list = length (variant_name_list scenario) \<and>
              j < length w_variant_list \<and>
              w_variant_list ! j = w_variant_dict)))"
proof -
  have h1: "rows_aligned scenario" by code_simp
  have h2: "popu_aligned scenario" by code_simp
  have h3: "popu_known scenario" by code_simp
  have h4: "''V2'' \<in> set (variant_name_list scenario)" by code_simp
  have h5: "''V2'' \<noteq> []" by simp
  have e1: "find_ignore_rows scenario ([''V1''], [1]) = Inr [2, 3]" by code_simp
  have e2: "find_next_variant_counts scenario ([''V1''], [1]) =
     Inr [[(''A'', 2), (''B'', 0)], [(''A'', 1), (''B'', 0)]]" by code_simp
  have e3: "split_subset scenario ([''V1''], [1]) (Some ''V2'') =
     Inr ([(''A'', 1), (''B'', 0)], [(''A'', 1), (''B'', 0)])" by code_simp
  from find_next_variant_counts_entry[OF h1 h2 h3 h4 h5, of "([''V1''], [1])"]
  show ?thesis using h1 h2 h3 h4 e1 e2 e3 by blast
qed

text \<open>
  C2. For a candidate \<open>X\<close> of \<open>variant_name_list\<close> and the rows \<open>ig\<close> returned by
  \<open>find_ignore_rows\<close>, \<open>split_subset\<close> returns two mappings over the ancestry universe:
  the first counts, per population, the rows outside \<open>ig\<close> whose cell at the column of \<open>X\<close>
  is 1, the second those whose cell is not 1. So the rows of \<open>ig\<close> are skipped, every other
  row is counted in exactly one mapping, and all counts together are the number of rows
  outside \<open>ig\<close>.
\<close>

theorem split_subset_counts:
  assumes "rows_aligned a" and "popu_aligned a" and "popu_known a"
    and "X \<in> set (variant_name_list a)" and "X \<noteq> []"
    and "find_ignore_rows a sp = Inr ig"
  shows "\<exists>j w_variant_dict wo_variant_dict.
           list_index (variant_name_list a) X = Inr j \<and>
           split_subset a sp (Some X) = Inr (w_variant_dict, wo_variant_dict) \<and>
           set (map fst w_variant_dict) = set (ancestry_list a) \<and>
           set (map fst wo_variant_dict) = set (ancestry_list a) \<and>
           (\<forall>p \<in> set (ancestry_list a).
              map_of w_variant_dict p = Some (int (length (rows_with a ig j p True))) \<and>
              map_of wo_variant_dict p = Some (int (length (rows_with a ig j p False)))) \<and>
           sum_list (map snd w_variant_dict) + sum_list (map snd wo_variant_dict) =
             int (length (filter (\<lambda>i. i \<notin> set ig) [0..<length (variant_list a)]))"
proof -
  from list_index_in[OF assms(4)] obtain j where
    j: "list_index (variant_name_list a) X = Inr j" by blast
  let ?Z = "dict_fromkeys (ancestry_list a) (0::int)"
  let ?rows = "enumerate 0 (variant_list a)"
  let ?p1 = "counted_popus a ig (\<lambda>row. row ! j = 1) ?rows"
  let ?p0 = "counted_popus a ig (\<lambda>row. row ! j \<noteq> 1) ?rows"
  let ?w = "add_counts ?Z ?p1" and ?wo = "add_counts ?Z ?p0"
  have r: "split_subset a sp (Some X) = Inr (?w, ?wo)"
    by (rule split_subset_closed[OF assms(1,2,3) j assms(5,6)])
  have kZ: "set (map fst ?Z) = set (ancestry_list a)" by (rule set_fromkeys)
  have k1: "set (map fst ?w) = set (ancestry_list a)" by (simp only: keys_add_counts kZ)
  have k0: "set (map fst ?wo) = set (ancestry_list a)" by (simp only: keys_add_counts kZ)
  have c1: "\<And>p. count_list ?p1 p = length (rows_with a ig j p True)"
    using count_counted_popus[of a ig j True] by simp
  have c0: "\<And>p. count_list ?p0 p = length (rows_with a ig j p False)"
    using count_counted_popus[of a ig j False] by simp
  have pw: "\<forall>p \<in> set (ancestry_list a).
              map_of ?w p = Some (int (length (rows_with a ig j p True))) \<and>
              map_of ?wo p = Some (int (length (rows_with a ig j p False)))"
    by (simp add: map_of_add_counts map_of_fromkeys c1 c0)
  have mem: "\<And>P. filter (\<lambda>p. p \<in> fst ` set ?Z) (counted_popus a ig P ?rows)
               = counted_popus a ig P ?rows"
  proof -
    fix P
    have "\<forall>p \<in> set (counted_popus a ig P ?rows). p \<in> fst ` set ?Z"
      using enumerated_row_ok[OF assms(1,2,3)] kZ
      by (fastforce simp: counted_popus_def)
    then show "filter (\<lambda>p. p \<in> fst ` set ?Z) (counted_popus a ig P ?rows)
               = counted_popus a ig P ?rows" by (simp add: filter_id_conv)
  qed
  have "sum_list (map snd ?w) + sum_list (map snd ?wo) = int (length ?p1) + int (length ?p0)"
    by (simp add: sum_add_counts[OF distinct_fromkeys] mem sum_fromkeys_zero)
  also have "\<dots> = int (length (filter (\<lambda>r. fst r \<notin> set ig) ?rows))"
    using length_counted_popus_split[of a ig j ?rows] by simp
  also have "\<dots> = int (length (filter (\<lambda>i. i \<notin> set ig) [0..<length (variant_list a)]))"
    by (simp only: length_filter_enumerate)
  finally have sm: "sum_list (map snd ?w) + sum_list (map snd ?wo) =
             int (length (filter (\<lambda>i. i \<notin> set ig) [0..<length (variant_list a)]))" .
  from j r k1 k0 pw sm show ?thesis by blast
qed

theorem split_subset_counts_witness:
  "rows_aligned scenario \<and> popu_aligned scenario \<and> popu_known scenario \<and>
   ''V2'' \<in> set (variant_name_list scenario) \<and>
   find_ignore_rows scenario ([''V1''], [1]) = Inr [2, 3] \<and>
   split_subset scenario ([''V1''], [1]) (Some ''V2'') =
     Inr ([(''A'', 1), (''B'', 0)], [(''A'', 1), (''B'', 0)]) \<and>
   rows_with scenario [2, 3] 1 ''A'' True = [1] \<and>
   rows_with scenario [2, 3] 1 ''A'' False = [0] \<and>
   (\<exists>j w_variant_dict wo_variant_dict.
      list_index (variant_name_list scenario) ''V2'' = Inr j \<and>
      split_subset scenario ([''V1''], [1]) (Some ''V2'') = Inr (w_variant_dict, wo_variant_dict) \<and>
      sum_list (map snd w_variant_dict) + sum_list (map snd wo_variant_dict) =
        int (length (filter (\<lambda>i. i \<notin> set [2, 3]) [0..<length (variant_list scenario)])))"
proof -
  have h1: "rows_aligned scenario" by code_simp
  have h2: "popu_aligned scenario" by code_simp
  have h3: "popu_known scenario" by code_simp
  have h4: "''V2'' \<in> set (variant_name_list scenario)" by code_simp
  have h5: "''V2'' \<noteq> []" by simp
  have h6: "find_ignore_rows scenario ([''V1''], [1]) = Inr [2, 3]" by code_simp
  have e1: "split_subset scenario ([''V1''], [1]) (Some ''V2'') =
     Inr ([(''A'', 1), (''B'', 0)], [(''A'', 1), (''B'', 0)])" by code_simp
  have e2: "rows_with scenario [2, 3] 1 ''A'' True = [1]" by code_simp
  have e3: "rows_with scenario [2, 3] 1 ''A'' False = [0]" by code_simp
  from split_subset_counts[OF h1 h2 h3 h4 h5 h6]
  show ?thesis using h1 h2 h3 h4 h6 e1 e2 e3 by blast
qed

lemma target_fold_closed:
  assumes "distinct (map fst d)" and "set ps \<subseteq> fst ` set d"
  shows "foldl (\<lambda>counts i. AList.update i (dict_get counts i 0 + 1) counts) d ps
           = add_counts d ps"
  using assms
proof (induction ps arbitrary: d)
  case Nil
  then show ?case by (simp add: add_counts_Nil)
next
  case (Cons p ps)
  have pin: "p \<in> fst ` set d" using Cons.prems(2) by simp
  then obtain c where c: "map_of d p = Some c"
    by (metis domD dom_map_of_conv_image_fst)
  have "dict_incr d p = Inr (add_counts d [p])"
    by (rule dict_incr_add_counts[OF Cons.prems(1) pin])
  then have u: "AList.update p (dict_get d p 0 + 1) d = add_counts d [p]"
    by (simp add: dict_incr_def dict_get_def c)
  have d': "distinct (map fst (add_counts d [p]))"
    using Cons.prems(1) by (simp add: keys_add_counts)
  have s': "set ps \<subseteq> fst ` set (add_counts d [p])"
    using Cons.prems(2) by (metis keys_add_counts list.set_map set_subset_Cons subset_trans)
  show ?case using Cons.IH[OF d' s'] u by (simp add: add_counts_Cons)
qed

lemma get_target_set_closed:
  assumes "popu_known a"
  shows "get_target_set a = add_counts (dict_fromkeys (ancestry_list a) 0) (popu_list a)"
proof -
  have "set (popu_list a) \<subseteq> fst ` set (dict_fromkeys (ancestry_list a) (0::int))"
    using assms set_fromkeys[of "ancestry_list a" "0::int"]
    by (auto simp: popu_known_def list_all_iff)
  from target_fold_closed[OF distinct_fromkeys this] show ?thesis
    by (simp add: get_target_set_def)
qed

lemma dict_sum_add_counts:
  assumes "\<forall>x \<in> set d. snd x = 0"
    and "\<And>k. count_list ps k = count_list qs k + count_list rs k"
  shows "dict_sum (add_counts d qs) (add_counts d rs) = add_counts d ps"
proof -
  have "zip (add_counts d qs) (add_counts d rs)
      = map (\<lambda>x. ((fst x, snd x + int (count_list qs (fst x))),
                   (fst x, snd x + int (count_list rs (fst x))))) d"
    by (simp add: add_counts_def zip_map_map case_prod_beta zip_same_conv_map)
  then have "dict_sum (add_counts d qs) (add_counts d rs)
      = map (\<lambda>x. (fst x, snd x + int (count_list qs (fst x)) + (snd x + int (count_list rs (fst x))))) d"
    by (simp add: dict_sum_def comp_def)
  also have "\<dots> = map (\<lambda>x. (fst x, snd x + int (count_list ps (fst x)))) d"
    using assms by (intro map_cong[OF refl]) simp
  finally show ?thesis by (simp add: add_counts_def case_prod_beta)
qed

lemma counted_popus_partition:
  "count_list (counted_popus a [] (\<lambda>row. row ! j = 1) rows) k
   + count_list (counted_popus a [] (\<lambda>row. row ! j \<noteq> 1) rows) k
   = count_list (map (\<lambda>r. popu_list a ! fst r) rows) k"
  by (induction rows) (auto simp: counted_popus_def)

lemma map_popu_enumerate:
  "length (popu_list a) = length xs \<Longrightarrow>
   map (\<lambda>r. popu_list a ! fst r) (enumerate 0 xs) = popu_list a"
  using map_nth[of "popu_list a"] by (simp add: enumerate_as_map comp_def)

text \<open>
  C4. For a variant \<open>X\<close> of \<open>variant_name_list\<close>, \<open>get_target_set\<close> is the pointwise sum
  of the two mappings of \<open>split_subset\<close> with the empty split path and candidate \<open>X\<close>; it
  has the labels of the ancestry universe as keys, and its values sum to the number of
  rows.
\<close>

theorem get_target_set_is_split_sum:
  assumes "rows_aligned a" and "popu_aligned a" and "popu_known a"
    and "X \<in> set (variant_name_list a)" and "X \<noteq> []"
  shows "\<exists>w_variant_dict wo_variant_dict.
           split_subset a ([], []) (Some X) = Inr (w_variant_dict, wo_variant_dict) \<and>
           get_target_set a = dict_sum w_variant_dict wo_variant_dict \<and>
           map fst w_variant_dict = map fst (get_target_set a) \<and>
           map fst wo_variant_dict = map fst (get_target_set a) \<and>
           distinct (map fst (get_target_set a)) \<and>
           set (map fst (get_target_set a)) = set (ancestry_list a) \<and>
           sum_list (map snd (get_target_set a)) = int (length (variant_list a))"
proof -
  from list_index_in[OF assms(4)] obtain j where
    j: "list_index (variant_name_list a) X = Inr j" by blast
  let ?Z = "dict_fromkeys (ancestry_list a) (0::int)"
  let ?rows = "enumerate 0 (variant_list a)"
  let ?p1 = "counted_popus a [] (\<lambda>row. row ! j = 1) ?rows"
  let ?p0 = "counted_popus a [] (\<lambda>row. row ! j \<noteq> 1) ?rows"
  let ?w = "add_counts ?Z ?p1" and ?wo = "add_counts ?Z ?p0"
  have ig: "find_ignore_rows a ([], []) = Inr []" by (simp add: find_ignore_rows_def)
  have r: "split_subset a ([], []) (Some X) = Inr (?w, ?wo)"
    by (rule split_subset_closed[OF assms(1,2,3) j assms(5) ig])
  have t: "get_target_set a = add_counts ?Z (popu_list a)"
    by (rule get_target_set_closed[OF assms(3)])
  have len: "length (popu_list a) = length (variant_list a)"
    using assms(2) by (simp add: popu_aligned_def)
  have z: "\<forall>x \<in> set ?Z. snd x = 0"
    using values_fromkeys[of _ _ "ancestry_list a" "0::int"] by auto
  have cnt: "\<And>k. count_list (popu_list a) k = count_list ?p1 k + count_list ?p0 k"
    using counted_popus_partition[of a j ?rows] map_popu_enumerate[OF len] by simp
  have s: "get_target_set a = dict_sum ?w ?wo"
    unfolding t by (rule dict_sum_add_counts[OF z cnt, symmetric])
  have k1: "map fst ?w = map fst (get_target_set a)" by (simp only: t keys_add_counts)
  have k0: "map fst ?wo = map fst (get_target_set a)" by (simp only: t keys_add_counts)
  have d: "distinct (map fst (get_target_set a))"
    by (simp only: t keys_add_counts distinct_fromkeys)
  have ks: "set (map fst (get_target_set a)) = set (ancestry_list a)"
    by (simp only: t keys_add_counts set_fromkeys)
  have "filter (\<lambda>p. p \<in> fst ` set ?Z) (popu_list a) = popu_list a"
    using assms(3) set_fromkeys[of "ancestry_list a" "0::int"]
    by (simp add: filter_id_conv popu_known_def list_all_iff)
  then have sm: "sum_list (map snd (get_target_set a)) = int (length (variant_list a))"
    unfolding t by (simp add: sum_add_counts[OF distinct_fromkeys] sum_fromkeys_zero len)
  from r s k1 k0 d ks sm show ?thesis by blast
qed

theorem get_target_set_is_split_sum_witness:
  "rows_aligned scenario \<and> popu_aligned scenario \<and> popu_known scenario \<and>
   ''V1'' \<in> set (variant_name_list scenario) \<and>
   get_target_set scenario = [(''A'', 2), (''B'', 2)] \<and>
   split_subset scenario ([], []) (Some ''V1'') =
     Inr ([(''A'', 2), (''B'', 0)], [(''A'', 0), (''B'', 2)]) \<and>
   (\<exists>w_variant_dict wo_variant_dict.
      split_subset scenario ([], []) (Some ''V1'') = Inr (w_variant_dict, wo_variant_dict) \<and>
      get_target_set scenario = dict_sum w_variant_dict wo_variant_dict \<and>
      sum_list (map snd (get_target_set scenario)) = int (length (variant_list scenario)))"
proof -
  have h1: "rows_aligned scenario" by code_simp
  have h2: "popu_aligned scenario" by code_simp
  have h3: "popu_known scenario" by code_simp
  have h4: "''V1'' \<in> set (variant_name_list scenario)" by code_simp
  have h5: "''V1'' \<noteq> []" by simp
  have e1: "get_target_set scenario = [(''A'', 2), (''B'', 2)]" by code_simp
  have e2: "split_subset scenario ([], []) (Some ''V1'') =
     Inr ([(''A'', 2), (''B'', 0)], [(''A'', 0), (''B'', 2)])" by code_simp
  from get_target_set_is_split_sum[OF h1 h2 h3 h4 h5]
  show ?thesis using h1 h2 h3 h4 e1 e2 by blast
qed

lemma split_row_falsy:
  assumes "\<not> truthy sv"
  shows "split_row a ig sv = split_row a ig None"
proof -
  have 1: "truthy sv = False" using assms by simp
  have 2: "truthy None = False" by (simp add: truthy_def)
  show ?thesis by (intro ext) (simp only: split_row_def 1 2 if_False)
qed

lemma split_loop_None:
  assumes "\<forall>r \<in> set rows. fst r < length (popu_list a)"
  shows "for_loop (split_row a ig None) rows acc = Inr acc"
  using assms
proof (induction rows)
  case Nil
  then show ?case by simp
next
  case (Cons r rows)
  obtain idx row where r: "r = (idx, row)" by (cases r)
  obtain w wo where acc: "acc = (w, wo)" by (cases acc)
  have "idx < length (popu_list a)" using Cons.prems r by simp
  then have "split_row a ig None r acc = Inr acc"
    by (simp add: split_row_def r acc list_get_def truthy_def)
  then show ?case using Cons by simp
qed

lemma split_subset_None_closed:
  assumes "popu_aligned a"
  shows "split_subset a sp None =
           (case find_ignore_rows a sp of
              Inl e \<Rightarrow> Inl e
            | Inr ig \<Rightarrow> Inr (dict_fromkeys (ancestry_list a) 0, dict_fromkeys (ancestry_list a) 0))"
proof -
  have "\<forall>r \<in> set (enumerate 0 (variant_list a)). fst r < length (popu_list a)"
    using assms by (auto simp: popu_aligned_def set_enumerate_iff)
  from split_loop_None[OF this] show ?thesis
    by (simp add: split_subset_def split: sum.splits)
qed

text \<open>
  C7. With no candidate variant, \<open>split_subset\<close> returns the two zero-initialised mappings
  on every split path that the row filter accepts (an error of the row filter is passed
  on), so on every path whose variants occur in \<open>variant_name_list\<close>: the keys of each
  mapping are the labels of the ancestry universe, each once, and every value is 0.
\<close>

theorem split_subset_no_candidate:
  "(popu_aligned a \<longrightarrow>
      split_subset a sp None =
        (case find_ignore_rows a sp of
           Inl e \<Rightarrow> Inl e
         | Inr ig \<Rightarrow> Inr (dict_fromkeys (ancestry_list a) 0, dict_fromkeys (ancestry_list a) 0))) \<and>
   (rows_aligned a \<and> popu_aligned a \<and> set (fst sp) \<subseteq> set (variant_name_list a) \<longrightarrow>
      split_subset a sp None =
        Inr (dict_fromkeys (ancestry_list a) 0, dict_fromkeys (ancestry_list a) 0)) \<and>
   distinct (map fst (dict_fromkeys (ancestry_list a) (0::int))) \<and>
   set (map fst (dict_fromkeys (ancestry_list a) (0::int))) = set (ancestry_list a) \<and>
   list_all (\<lambda>x. snd x = 0) (dict_fromkeys (ancestry_list a) (0::int))"
proof -
  let ?Z = "dict_fromkeys (ancestry_list a) (0::int)"
  have 1: "split_subset a sp None =
        (case find_ignore_rows a sp of Inl e \<Rightarrow> Inl e | Inr ig \<Rightarrow> Inr (?Z, ?Z))"
    if "popu_aligned a"
    by (rule split_subset_None_closed[OF that])
  have 2: "split_subset a sp None = Inr (?Z, ?Z)"
    if h: "rows_aligned a \<and> popu_aligned a \<and> set (fst sp) \<subseteq> set (variant_name_list a)"
  proof -
    from h find_ignore_rows_total[of a sp] obtain ig where
      ig: "find_ignore_rows a sp = Inr ig" by blast
    from h show ?thesis by (simp add: 1 ig)
  qed
  have z: "list_all (\<lambda>x. snd x = 0) ?Z"
    using values_fromkeys[of _ _ "ancestry_list a" "0::int"] by (auto simp: list_all_iff)
  from 1 2 z distinct_fromkeys[of "ancestry_list a" "0::int"]
    set_fromkeys[of "ancestry_list a" "0::int"]
  show ?thesis by blast
qed

theorem split_subset_no_candidate_witness:
  "rows_aligned scenario \<and> popu_aligned scenario \<and>
   set (fst ([''V1''], [1::int])) \<subseteq> set (variant_name_list scenario) \<and>
   dict_fromkeys (ancestry_list scenario) (0::int) = [(''A'', 0), (''B'', 0)] \<and>
   split_subset scenario ([''V1''], [1]) None =
     Inr (dict_fromkeys (ancestry_list scenario) 0, dict_fromkeys (ancestry_list scenario) 0) \<and>
   set (map fst (dict_fromkeys (ancestry_list scenario) (0::int))) = set (ancestry_list scenario) \<and>
   list_all (\<lambda>x. snd x = 0) (dict_fromkeys (ancestry_list scenario) (0::int))"
proof -
  have h1: "rows_aligned scenario" by code_simp
  have h2: "popu_aligned scenario" by code_simp
  have h3: "set (fst ([''V1''], [1::int])) \<subseteq> set (variant_name_list scenario)" by code_simp
  have e1: "dict_fromkeys (ancestry_list scenario) (0::int) = [(''A'', 0), (''B'', 0)]"
    by code_simp
  from split_subset_no_candidate[of scenario "([''V1''], [1])"]
  show ?thesis using h1 h2 h3 e1 by blast
qed

text \<open>
  C10. The empty string as candidate is no candidate: \<open>split_subset\<close> behaves as with
  None on every split path, and on a path the row filter accepts it returns the two
  all-zero mappings; the empty string is never looked up in \<open>variant_name_list\<close>.
\<close>

theorem split_subset_empty_candidate:
  "split_subset a sp (Some []) = split_subset a sp None \<and>
   (rows_aligned a \<and> popu_aligned a \<and> set (fst sp) \<subseteq> set (variant_name_list a) \<longrightarrow>
      split_subset a sp (Some []) =
        Inr (dict_fromkeys (ancestry_list a) 0, dict_fromkeys (ancestry_list a) 0))"
proof -
  have f: "\<not> truthy (Some [])" by (simp add: truthy_def)
  have e: "split_subset a sp (Some []) = split_subset a sp None"
    by (simp add: split_subset_def split_row_falsy[OF f] split: sum.splits)
  have "split_subset a sp None =
          Inr (dict_fromkeys (ancestry_list a) 0, dict_fromkeys (ancestry_list a) 0)"
    if h: "rows_aligned a \<and> popu_aligned a \<and> set (fst sp) \<subseteq> set (variant_name_list a)"
  proof -
    from h find_ignore_rows_total[of a sp] obtain ig where
      ig: "find_ignore_rows a sp = Inr ig" by blast
    from h show ?thesis by (simp add: split_subset_None_closed ig)
  qed
  with e show ?thesis by simp
qed

theorem split_subset_empty_candidate_witness:
  "rows_aligned scenario \<and> popu_aligned scenario \<and>
   set (fst ([''V1''], [1::int])) \<subseteq> set (variant_name_list scenario) \<and>
   [] \<notin> set (variant_name_list scenario) \<and>
   split_subset scenario ([''V1''], [1]) (Some []) = split_subset scenario ([''V1''], [1]) None \<and>
   split_subset scenario ([''V1''], [1]) (Some []) =
     Inr (dict_fromkeys (ancestry_list scenario) 0, dict_fromkeys (ancestry_list scenario) 0) \<and>
   dict_fromkeys (ancestry_list scenario) (0::int) = [(''A'', 0), (''B'', 0)]"
proof -
  have h1: "rows_aligned scenario" by code_simp
  have h2: "popu_aligned scenario" by code_simp
  have h3: "set (fst ([''V1''], [1::int])) \<subseteq> set (variant_name_list scenario)" by code_simp
  have h4: "[] \<notin> set (variant_name_list scenario)" by code_simp
  have e1: "dict_fromkeys (ancestry_list scenario) (0::int) = [(''A'', 0), (''B'', 0)]"
    by code_simp
  from split_subset_empty_candidate[of scenario "([''V1''], [1])"]
  show ?thesis using h1 h2 h3 h4 e1 by blast
qed

text \<open>
  C3. Extending a split path by one constraint never makes a row eligible again: whenever
  the row filter returns for the parent path and for a child path of \<open>create_split_path\<close>,
  every row ignored under the parent is ignored under the child. It does return for both
  children when it returns for the parent, the rows are aligned with the variant names,
  the parent path has one direction per variant and the new variant is a variant of the
  matrix.
\<close>

theorem child_paths_ignore_more:
  "(\<forall>ig ig'. find_ignore_rows a sp = Inr ig \<and>
        find_ignore_rows a (fst (create_split_path sp v)) = Inr ig' \<longrightarrow> set ig \<subseteq> set ig') \<and>
   (\<forall>ig ig'. find_ignore_rows a sp = Inr ig \<and>
        find_ignore_rows a (snd (create_split_path sp v)) = Inr ig' \<longrightarrow> set ig \<subseteq> set ig') \<and>
   (\<forall>ig. rows_aligned a \<and> length (fst sp) = length (snd sp) \<and>
        v \<in> set (variant_name_list a) \<and> find_ignore_rows a sp = Inr ig \<longrightarrow>
        (\<exists>ig_w ig_wo.
           find_ignore_rows a (fst (create_split_path sp v)) = Inr ig_w \<and>
           find_ignore_rows a (snd (create_split_path sp v)) = Inr ig_wo \<and>
           set ig \<subseteq> set ig_w \<and> set ig \<subseteq> set ig_wo \<and>
           set (filter (\<lambda>i. i \<notin> set ig_w) [0..<length (variant_list a)])
             \<subseteq> set (filter (\<lambda>i. i \<notin> set ig) [0..<length (variant_list a)]) \<and>
           set (filter (\<lambda>i. i \<notin> set ig_wo) [0..<length (variant_list a)])
             \<subseteq> set (filter (\<lambda>i. i \<notin> set ig) [0..<length (variant_list a)])))"
proof -
  have gen: "set ig \<subseteq> set ig'"
    if "find_ignore_rows a sp = Inr ig" and "find_ignore_rows a (fst sp @ [v], snd sp @ [d]) = Inr ig'"
    for ig ig' d
  proof -
    from that(1) have "find_ignore_rows a (fst sp, snd sp) = Inr ig" by simp
    from find_ignore_rows_extend[OF this that(2)] show ?thesis by auto
  qed
  have child: "\<exists>ig'. find_ignore_rows a (fst sp @ [v], snd sp @ [d]) = Inr ig'"
    if "rows_aligned a" and "length (fst sp) = length (snd sp)"
      and "v \<in> set (variant_name_list a)" and "find_ignore_rows a sp = Inr ig"
    for ig d
  proof -
    from ignore_constraint_total[OF that(1,3), of d ig] obtain ig' where
      c: "ignore_constraint a (v, d) ig = Inr ig'" by auto
    have "find_ignore_rows a (fst sp @ [v], snd sp @ [d]) = Inr ig'"
      using that(2,4) c by (simp add: find_ignore_rows_def for_loop_append)
    then show ?thesis by blast
  qed
  have tot: "\<exists>ig_w ig_wo.
           find_ignore_rows a (fst (create_split_path sp v)) = Inr ig_w \<and>
           find_ignore_rows a (snd (create_split_path sp v)) = Inr ig_wo \<and>
           set ig \<subseteq> set ig_w \<and> set ig \<subseteq> set ig_wo \<and>
           set (filter (\<lambda>i. i \<notin> set ig_w) [0..<length (variant_list a)])
             \<subseteq> set (filter (\<lambda>i. i \<notin> set ig) [0..<length (variant_list a)]) \<and>
           set (filter (\<lambda>i. i \<notin> set ig_wo) [0..<length (variant_list a)])
             \<subseteq> set (filter (\<lambda>i. i \<notin> set ig) [0..<length (variant_list a)])"
    if h: "rows_aligned a \<and> length (fst sp) = length (snd sp) \<and>
        v \<in> set (variant_name_list a) \<and> find_ignore_rows a sp = Inr ig"
    for ig
  proof -
    from h child[of ig 1] obtain ig_w where
      w: "find_ignore_rows a (fst sp @ [v], snd sp @ [1]) = Inr ig_w" by blast
    from h child[of ig 0] obtain ig_wo where
      wo: "find_ignore_rows a (fst sp @ [v], snd sp @ [0]) = Inr ig_wo" by blast
    from h gen[OF _ w] have sw: "set ig \<subseteq> set ig_w" by blast
    from h gen[OF _ wo] have swo: "set ig \<subseteq> set ig_wo" by blast
    from w wo sw swo show ?thesis
      by (intro exI[of _ ig_w] exI[of _ ig_wo]) (auto simp: create_split_path_def)
  qed
  have g1: "\<forall>ig ig'. find_ignore_rows a sp = Inr ig \<and>
        find_ignore_rows a (fst (create_split_path sp v)) = Inr ig' \<longrightarrow> set ig \<subseteq> set ig'"
    using gen[of _ 1] by (simp add: create_split_path_def)
  have g2: "\<forall>ig ig'. find_ignore_rows a sp = Inr ig \<and>
        find_ignore_rows a (snd (create_split_path sp v)) = Inr ig' \<longrightarrow> set ig \<subseteq> set ig'"
    using gen[of _ 0] by (simp add: create_split_path_def)
  from g1 g2 tot show ?thesis by blast
qed

theorem child_paths_ignore_more_witness:
  "rows_aligned scenario \<and> length (fst ([''V1''], [1::int])) = length (snd ([''V1''], [1::int])) \<and>
   ''V2'' \<in> set (variant_name_list scenario) \<and>
   find_ignore_rows scenario ([''V1''], [1]) = Inr [2, 3] \<and>
   create_split_path ([''V1''], [1]) ''V2'' =
     (([''V1'', ''V2''], [1, 1]), ([''V1'', ''V2''], [1, 0])) \<and>
   find_ignore_rows scenario ([''V1'', ''V2''], [1, 1]) = Inr [2, 3, 0] \<and>
   find_ignore_rows scenario ([''V1'', ''V2''], [1, 0]) = Inr [2, 3, 1] \<and>
   (\<exists>ig_w ig_wo.
      find_ignore_rows scenario (fst (create_split_path ([''V1''], [1]) ''V2'')) = Inr ig_w \<and>
      find_ignore_rows scenario (snd (create_split_path ([''V1''], [1]) ''V2'')) = Inr ig_wo \<and>
      set [2, 3] \<subseteq> set ig_w \<and> set [2, 3] \<subseteq> set ig_wo)"
proof -
  have h1: "rows_aligned scenario" by code_simp
  have h2: "length (fst ([''V1''], [1::int])) = length (snd ([''V1''], [1::int]))" by simp
  have h3: "''V2'' \<in> set (variant_name_list scenario)" by code_simp
  have h4: "find_ignore_rows scenario ([''V1''], [1]) = Inr [2, 3]" by code_simp
  have e1: "create_split_path ([''V1''], [1]) ''V2'' =
     (([''V1'', ''V2''], [1, 1]), ([''V1'', ''V2''], [1, 0]))" by code_simp
  have e2: "find_ignore_rows scenario ([''V1'', ''V2''], [1, 1]) = Inr [2, 3, 0]" by code_simp
  have e3: "find_ignore_rows scenario ([''V1'', ''V2''], [1, 0]) = Inr [2, 3, 1]" by code_simp
  from child_paths_ignore_more[of scenario "([''V1''], [1])" "''V2''"] h1 h2 h3 h4
  have "\<exists>ig_w ig_wo.
      find_ignore_rows scenario (fst (create_split_path ([''V1''], [1]) ''V2'')) = Inr ig_w \<and>
      find_ignore_rows scenario (snd (create_split_path ([''V1''], [1]) ''V2'')) = Inr ig_wo \<and>
      set [2, 3] \<subseteq> set ig_w \<and> set [2, 3] \<subseteq> set ig_wo" by blast
  then show ?thesis using h1 h2 h3 h4 e1 e2 e3 by blast
qed

lemma ignore_constraint_unknown:
  "v \<notin> set (variant_name_list a) \<Longrightarrow> ignore_constraint a (v, d) ign = Inl ValueError"
  by (simp add: ignore_constraint_def list_index_notin)

lemma find_ignore_rows_unknown:
  assumes "v \<notin> set (variant_name_list a)" and "length vs = length ds"
  shows "find_ignore_rows a (vs @ v # vs', ds @ d # ds') =
           (case find_ignore_rows a (vs, ds) of Inl e \<Rightarrow> Inl e | Inr ig \<Rightarrow> Inl ValueError)"
  using assms
  by (simp add: find_ignore_rows_def for_loop_append ignore_constraint_unknown split: sum.splits)

lemma split_row_unknown:
  assumes "sv \<notin> set (variant_name_list a)" and "sv \<noteq> []" and "idx < length (popu_list a)"
  shows "split_row a ig (Some sv) (idx, row) acc =
           (if idx \<in> set ig then Inr acc else Inl ValueError)"
  using assms
  by (cases acc) (simp add: split_row_def list_get_def truthy_def list_index_notin)

lemma split_loop_unknown:
  assumes "sv \<notin> set (variant_name_list a)" and "sv \<noteq> []"
    and "\<forall>r \<in> set rows. fst r < length (popu_list a)"
  shows "for_loop (split_row a ig (Some sv)) rows acc =
           (if list_all (\<lambda>r. fst r \<in> set ig) rows then Inr acc else Inl ValueError)"
  using assms(3)
proof (induction rows)
  case Nil
  then show ?case by simp
next
  case (Cons r rows)
  obtain idx row where r: "r = (idx, row)" by (cases r)
  have "idx < length (popu_list a)" using Cons.prems r by simp
  from split_row_unknown[OF assms(1,2) this] Cons show ?case
    by (simp add: r)
qed

lemma list_all_enumerate_fst:
  "list_all (\<lambda>r. P (fst r)) (enumerate 0 xs) = list_all P [0..<length xs]"
  by (simp add: enumerate_as_map list_all_iff)

lemma split_subset_unknown:
  assumes "v \<notin> set (variant_name_list a)" and "v \<noteq> []" and "popu_aligned a"
  shows "split_subset a sp (Some v) =
      (case find_ignore_rows a sp of
         Inl e \<Rightarrow> Inl e
       | Inr ig \<Rightarrow>
           if list_all (\<lambda>i. i \<in> set ig) [0..<length (variant_list a)]
           then Inr (dict_fromkeys (ancestry_list a) 0, dict_fromkeys (ancestry_list a) 0)
           else Inl ValueError)"
proof -
  have "\<forall>r \<in> set (enumerate 0 (variant_list a)). fst r < length (popu_list a)"
    using assms(3) by (auto simp: popu_aligned_def set_enumerate_iff)
  note loop = split_loop_unknown[OF assms(1,2) this]
  show ?thesis
  proof (cases "find_ignore_rows a sp")
    case (Inl e)
    then show ?thesis by (simp add: split_subset_def)
  next
    case (Inr ig)
    show ?thesis
      using loop[of ig] list_all_enumerate_fst[of "\<lambda>i. i \<in> set ig" "variant_list a"]
      by (simp add: split_subset_def Inr)
  qed
qed

text \<open>
  C5, as the code has it. The lookup of a variant that is not in \<open>variant_name_list\<close>
  raises ValueError, the error of \<^verbatim>\<open>list.index\<close>. For a split path it is raised when the
  loop of the row filter reaches the constraint: after the rows were scanned for the
  constraints before it (an error of theirs comes first), before any row is scanned for it
  and whatever follows it; \<open>split_subset\<close> and \<open>find_next_variant_counts\<close> raise the same
  error. For a candidate the lookup happens for the first row that is not ignored, so a
  non-empty unknown candidate raises when some row is eligible and yields the two all-zero
  mappings when none is.
\<close>

theorem unknown_variant_raises:
  assumes "v \<notin> set (variant_name_list a)"
  shows "(length vs = length ds \<longrightarrow>
            find_ignore_rows a (vs @ v # vs', ds @ d # ds') =
              (case find_ignore_rows a (vs, ds) of Inl e \<Rightarrow> Inl e | Inr ig \<Rightarrow> Inl ValueError) \<and>
            split_subset a (vs @ v # vs', ds @ d # ds') split_var =
              (case find_ignore_rows a (vs, ds) of Inl e \<Rightarrow> Inl e | Inr ig \<Rightarrow> Inl ValueError) \<and>
            find_next_variant_counts a (vs @ v # vs', ds @ d # ds') =
              (case find_ignore_rows a (vs, ds) of Inl e \<Rightarrow> Inl e | Inr ig \<Rightarrow> Inl ValueError)) \<and>
         (length vs = length ds \<and> rows_aligned a \<and> set vs \<subseteq> set (variant_name_list a) \<longrightarrow>
            find_ignore_rows a (vs @ v # vs', ds @ d # ds') = Inl ValueError) \<and>
         (v \<noteq> [] \<and> popu_aligned a \<longrightarrow>
            split_subset a sp (Some v) =
              (case find_ignore_rows a sp of
                 Inl e \<Rightarrow> Inl e
               | Inr ig \<Rightarrow>
                   if list_all (\<lambda>i. i \<in> set ig) [0..<length (variant_list a)]
                   then Inr (dict_fromkeys (ancestry_list a) 0, dict_fromkeys (ancestry_list a) 0)
                   else Inl ValueError))"
proof -
  let ?sp = "(vs @ v # vs', ds @ d # ds')"
  have 1: "find_ignore_rows a ?sp =
              (case find_ignore_rows a (vs, ds) of Inl e \<Rightarrow> Inl e | Inr ig \<Rightarrow> Inl ValueError)"
    if "length vs = length ds"
    by (rule find_ignore_rows_unknown[OF assms that])
  have e: "\<exists>e. find_ignore_rows a ?sp = Inl e \<and>
            e = (case find_ignore_rows a (vs, ds) of Inl e \<Rightarrow> e | Inr ig \<Rightarrow> ValueError)"
    if "length vs = length ds"
    using 1[OF that] by (cases "find_ignore_rows a (vs, ds)") auto
  have 2: "split_subset a ?sp split_var =
              (case find_ignore_rows a (vs, ds) of Inl e \<Rightarrow> Inl e | Inr ig \<Rightarrow> Inl ValueError)"
    if "length vs = length ds"
    using e[OF that] split_subset_error[of a ?sp _ split_var]
    by (cases "find_ignore_rows a (vs, ds)") auto
  have 3: "find_next_variant_counts a ?sp =
              (case find_ignore_rows a (vs, ds) of Inl e \<Rightarrow> Inl e | Inr ig \<Rightarrow> Inl ValueError)"
    if "length vs = length ds"
    using e[OF that] find_next_error[of a ?sp]
    by (cases "find_ignore_rows a (vs, ds)") auto
  have 4: "find_ignore_rows a ?sp = Inl ValueError"
    if "length vs = length ds \<and> rows_aligned a \<and> set vs \<subseteq> set (variant_name_list a)"
  proof -
    from that find_ignore_rows_total[of a "(vs, ds)"] obtain ig where
      "find_ignore_rows a (vs, ds) = Inr ig" by auto
    with 1 that show ?thesis by simp
  qed
  have 5: "split_subset a sp (Some v) =
              (case find_ignore_rows a sp of
                 Inl e \<Rightarrow> Inl e
               | Inr ig \<Rightarrow>
                   if list_all (\<lambda>i. i \<in> set ig) [0..<length (variant_list a)]
                   then Inr (dict_fromkeys (ancestry_list a) 0, dict_fromkeys (ancestry_list a) 0)
                   else Inl ValueError)"
    if "v \<noteq> [] \<and> popu_aligned a"
    using that split_subset_unknown[OF assms, of sp] by blast
  from 1 2 3 4 5 show ?thesis by blast
qed

theorem unknown_variant_raises_witness:
  "''ZZ'' \<notin> set (variant_name_list scenario) \<and> rows_aligned scenario \<and> popu_aligned scenario \<and>
   find_ignore_rows scenario ([''V1''], [1]) = Inr [2, 3] \<and>
   find_ignore_rows scenario ([''V1''] @ ''ZZ'' # [], [1] @ 1 # []) = Inl ValueError \<and>
   split_subset scenario ([''V1''] @ ''ZZ'' # [], [1] @ 1 # []) None = Inl ValueError \<and>
   find_next_variant_counts scenario ([''V1''] @ ''ZZ'' # [], [1] @ 1 # []) = Inl ValueError \<and>
   split_subset scenario ([''V1''], [1]) (Some ''ZZ'') = Inl ValueError"
proof -
  have h1: "''ZZ'' \<notin> set (variant_name_list scenario)" by code_simp
  have h2: "rows_aligned scenario" by code_simp
  have h3: "popu_aligned scenario" by code_simp
  have h4: "find_ignore_rows scenario ([''V1''], [1]) = Inr [2, 3]" by code_simp
  have h5: "length [''V1''] = length [1::int]" by simp
  have h6: "''ZZ'' \<noteq> []" by simp
  have h7: "\<not> list_all (\<lambda>i. i \<in> set [2, 3]) [0..<length (variant_list scenario)]" by code_simp
  from unknown_variant_raises[OF h1, where vs = "[''V1'']" and ds = "[1]" and vs' = "[]"
      and ds' = "[]" and d = 1 and split_var = None and sp = "([''V1''], [1])"]
  show ?thesis using h1 h2 h3 h4 h5 h6 h7 by simp
qed

theorem unknown_candidate_counterexample:
  "''ZZ'' \<notin> set (variant_name_list all_carriers) \<and>
   find_ignore_rows all_carriers ([''V1''], [0]) = Inr [0, 1] \<and>
   split_subset all_carriers ([''V1''], [0]) (Some ''ZZ'') = Inr ([(''A'', 0)], [(''A'', 0)])"
  by code_simp

lemma dict_get_update:
  "dict_get (AList.update p v d) k dflt = (if k = p then v else dict_get d k dflt)"
  by (simp add: dict_get_def update_conv')

lemma count_fold_map_of:
  "map_of (foldl (\<lambda>d k. AList.update k (dict_get d k 0 + 1) d) d ks) k =
     (if count_list ks k = 0 then map_of d k
      else Some (dict_get d k (0::int) + int (count_list ks k)))"
proof (induction ks arbitrary: d)
  case Nil
  then show ?case by simp
next
  case (Cons p ks)
  show ?case
    unfolding foldl_Cons Cons.IH
    by (simp add: dict_get_update update_conv')
qed

lemma count_fold_keys:
  "set (map fst (foldl (\<lambda>d k. AList.update k (dict_get d k 0 + 1) d) d ks)) =
     set (map fst d) \<union> set ks \<and>
   (distinct (map fst d) \<longrightarrow>
      distinct (map fst (foldl (\<lambda>d k. AList.update k (dict_get d k (0::int) + 1) d) d ks)))"
proof (induction ks arbitrary: d)
  case Nil
  then show ?case by simp
next
  case (Cons p ks)
  show ?case
    unfolding foldl_Cons using Cons.IH[of "AList.update p (dict_get d p 0 + 1) d"]
    by (auto simp: dom_update distinct_update)
qed

lemma carried_names_Nil: "carried_names a n [] = []"
  by (simp add: carried_names_def)

lemma carried_names_Cons:
  "carried_names a n (v # row) =
     (if v = 1 then variant_name_list a ! n # carried_names a (Suc n) row
      else carried_names a (Suc n) row)"
  by (simp add: carried_names_def enumerate_simps)

lemma variant_cells_loop:
  assumes "n + length row \<le> length (variant_name_list a)"
  shows "for_loop (variant_cell a) (enumerate n row) d =
           Inr (foldl (\<lambda>d k. AList.update k (dict_get d k 0 + 1) d) d (carried_names a n row))"
  using assms
proof (induction row arbitrary: n d)
  case Nil
  then show ?case by (simp add: carried_names_Nil)
next
  case (Cons v row)
  have n: "n < length (variant_name_list a)" using Cons.prems by simp
  have s: "Suc n + length row \<le> length (variant_name_list a)" using Cons.prems by simp
  show ?case
    using n Cons.IH[OF s]
    by (simp add: enumerate_simps variant_cell_def list_get_def carried_names_Cons)
qed

lemma variant_rows_loop:
  assumes "\<forall>row \<in> set rows. length row \<le> length (variant_name_list a)"
  shows "for_loop (\<lambda>variants. for_loop (variant_cell a) (enumerate 0 variants)) rows d =
           Inr (foldl (\<lambda>d k. AList.update k (dict_get d k 0 + 1) d) d
                  (concat (map (carried_names a 0) rows)))"
  using assms
proof (induction rows arbitrary: d)
  case Nil
  then show ?case by simp
next
  case (Cons row rows)
  have "0 + length row \<le> length (variant_name_list a)" using Cons.prems by simp
  from variant_cells_loop[OF this] Cons show ?case by simp
qed

lemma length_filter_eq_index:
  "length (filter (\<lambda>i. i = j \<and> P i) [0..<n]) = (if j < n \<and> P j then 1 else 0)"
  by (induction n) auto

lemma count_carried_names:
  assumes "distinct (variant_name_list a)" and "length row \<le> length (variant_name_list a)"
    and "j < length (variant_name_list a)"
  shows "count_list (carried_names a 0 row) (variant_name_list a ! j) =
           (if j < length row \<and> row ! j = 1 then 1 else 0)"
proof -
  have "carried_names a 0 row =
          map (\<lambda>i. variant_name_list a ! i) (filter (\<lambda>i. row ! i = 1) [0..<length row])"
    by (simp add: carried_names_def enumerate_as_map filter_map comp_def)
  then have "count_list (carried_names a 0 row) (variant_name_list a ! j) =
          length (filter (\<lambda>i. variant_name_list a ! i = variant_name_list a ! j \<and> row ! i = 1)
                    [0..<length row])"
    by (simp add: count_list_map_filter conj_commute)
  also have "filter (\<lambda>i. variant_name_list a ! i = variant_name_list a ! j \<and> row ! i = 1)
                    [0..<length row]
           = filter (\<lambda>i. i = j \<and> row ! i = 1) [0..<length row]"
    using assms by (intro filter_cong[OF refl]) (auto simp: nth_eq_iff_index_eq)
  finally show ?thesis by (simp add: length_filter_eq_index)
qed

lemma count_list_concat:
  "count_list (concat xss) k = sum_list (map (\<lambda>xs. count_list xs k) xss)"
  by (induction xss) auto

lemma sum_indicator_filter:
  "(\<Sum>x\<leftarrow>xs. if P x then 1 else 0) = length (filter P xs)"
  by (induction xs) auto

lemma count_all_carried:
  assumes "rows_aligned a" and "distinct (variant_name_list a)"
    and "j < length (variant_name_list a)"
  shows "count_list (concat (map (carried_names a 0) (variant_list a))) (variant_name_list a ! j)
           = carriers a j"
proof -
  have "map (\<lambda>row. count_list (carried_names a 0 row) (variant_name_list a ! j)) (variant_list a)
      = map (\<lambda>row. if row ! j = 1 then 1 else 0) (variant_list a)"
  proof (rule map_cong[OF refl])
    fix row assume "row \<in> set (variant_list a)"
    then have l: "length row = length (variant_name_list a)"
      using assms(1) by (simp add: rows_aligned_def list_all_iff)
    then show "count_list (carried_names a 0 row) (variant_name_list a ! j)
                 = (if row ! j = 1 then 1 else 0)"
      using count_carried_names[OF assms(2) _ assms(3), of row] assms(3) by simp
  qed
  note eq = this
  have "count_list (concat (map (carried_names a 0) (variant_list a))) (variant_name_list a ! j)
      = sum_list (map (\<lambda>row. count_list (carried_names a 0 row) (variant_name_list a ! j))
          (variant_list a))"
    by (simp add: count_list_concat comp_def)
  also have "\<dots> = sum_list (map (\<lambda>row. if row ! j = 1 then 1 else 0) (variant_list a))"
    by (simp only: eq)
  also have "\<dots> = carriers a j"
    by (simp add: carriers_def sum_indicator_filter)
  finally show ?thesis .
qed

text \<open>
  C8. \<open>count_variants\<close> returns a mapping from variant names: a name is a key exactly
  when some row has a 1 in its column, and its value is the number of rows of the whole
  matrix with a 1 in that column. No split path takes part. The variant names are unique
  and the rows are aligned with them, as the data model has it.
\<close>

theorem count_variants_counts:
  assumes "rows_aligned a" and "distinct (variant_name_list a)"
  shows "\<exists>my_dict.
           count_variants a = Inr my_dict \<and>
           distinct (map fst my_dict) \<and>
           set (map fst my_dict) =
             {variant_name_list a ! j | j. j < length (variant_name_list a) \<and> 0 < carriers a j} \<and>
           (\<forall>j < length (variant_name_list a).
              map_of my_dict (variant_name_list a ! j) =
                (if carriers a j = 0 then None else Some (int (carriers a j))))"
proof -
  let ?ks = "concat (map (carried_names a 0) (variant_list a))"
  let ?d = "foldl (\<lambda>d k. AList.update k (dict_get d k 0 + 1) d) ([]::(string, int) dict) ?ks"
  have "\<forall>row \<in> set (variant_list a). length row \<le> length (variant_name_list a)"
    using assms(1) by (simp add: rows_aligned_def list_all_iff)
  from variant_rows_loop[OF this] have r: "count_variants a = Inr ?d"
    by (simp add: count_variants_def)
  have d: "distinct (map fst ?d)" using count_fold_keys[of "[]" ?ks] by simp
  have m: "map_of ?d (variant_name_list a ! j) =
             (if carriers a j = 0 then None else Some (int (carriers a j)))"
    if "j < length (variant_name_list a)" for j
  proof -
    have g: "dict_get ([]::(string, int) dict) (variant_name_list a ! j) 0 = 0"
      by (simp add: dict_get_def)
    show ?thesis
      unfolding count_fold_map_of count_all_carried[OF assms that] g by simp
  qed
  have sub: "set (map fst ?d) \<subseteq> set (variant_name_list a)"
  proof -
    have "set ?ks \<subseteq> set (variant_name_list a)"
    proof
      fix k assume "k \<in> set ?ks"
      then obtain row where row: "row \<in> set (variant_list a)"
        and kr: "k \<in> set (carried_names a 0 row)" by auto
      from kr obtain r where "r \<in> set (enumerate 0 row)" "k = variant_name_list a ! fst r"
        unfolding carried_names_def by auto
      then have "(fst r, snd r) \<in> set (enumerate 0 row)" "k = variant_name_list a ! fst r"
        by simp_all
      then have "fst r < length row" "k = variant_name_list a ! fst r"
        unfolding set_enumerate_iff by simp_all
      then obtain i where i: "i < length row" "k = variant_name_list a ! i" by blast
      from row assms(1) have "length row = length (variant_name_list a)"
        by (simp add: rows_aligned_def list_all_iff)
      with i show "k \<in> set (variant_name_list a)" by simp
    qed
    then show ?thesis using count_fold_keys[of "[]" ?ks] by simp
  qed
  have k: "set (map fst ?d) =
             {variant_name_list a ! j | j. j < length (variant_name_list a) \<and> 0 < carriers a j}"
  proof (rule set_eqI)
    fix x
    show "x \<in> set (map fst ?d) \<longleftrightarrow>
          x \<in> {variant_name_list a ! j | j. j < length (variant_name_list a) \<and> 0 < carriers a j}"
    proof
      assume x: "x \<in> set (map fst ?d)"
      from subsetD[OF sub x] have "x \<in> set (variant_name_list a)" .
      then obtain j where j: "j < length (variant_name_list a)" "x = variant_name_list a ! j"
        unfolding in_set_conv_nth by blast
      from x have "map_of ?d x \<noteq> None" by (simp only: map_of_eq_None_iff list.set_map not_not)
      then have "map_of ?d (variant_name_list a ! j) \<noteq> None" unfolding j(2) .
      then have "carriers a j \<noteq> 0" unfolding m[OF j(1)] by (cases "carriers a j = 0") simp_all
      then have "0 < carriers a j" by simp
      with j show "x \<in> {variant_name_list a ! j | j. j < length (variant_name_list a) \<and> 0 < carriers a j}"
        by blast
    next
      assume "x \<in> {variant_name_list a ! j | j. j < length (variant_name_list a) \<and> 0 < carriers a j}"
      then obtain j where j: "j < length (variant_name_list a)" "x = variant_name_list a ! j"
        "0 < carriers a j" by blast
      have "map_of ?d (variant_name_list a ! j) \<noteq> None"
        unfolding m[OF j(1)] using j(3) by simp
      then have "map_of ?d x \<noteq> None" unfolding j(2) .
      then show "x \<in> set (map fst ?d)" by (simp only: map_of_eq_None_iff list.set_map not_not)
    qed
  qed
  show ?thesis
  proof (intro exI[of _ ?d] conjI allI impI)
    show "count_variants a = Inr ?d" by (rule r)
    show "distinct (map fst ?d)" by (rule d)
    show "set (map fst ?d) =
             {variant_name_list a ! j | j. j < length (variant_name_list a) \<and> 0 < carriers a j}"
      by (rule k)
    fix j assume "j < length (variant_name_list a)"
    then show "map_of ?d (variant_name_list a ! j) =
                (if carriers a j = 0 then None else Some (int (carriers a j)))" by (rule m)
  qed
qed

theorem count_variants_counts_witness:
  "rows_aligned silent_variant \<and> distinct (variant_name_list silent_variant) \<and>
   count_variants silent_variant = Inr [(''V1'', 2)] \<and>
   carriers silent_variant 0 = 2 \<and> carriers silent_variant 1 = 0 \<and>
   (\<exists>my_dict.
      count_variants silent_variant = Inr my_dict \<and>
      distinct (map fst my_dict) \<and>
      set (map fst my_dict) =
        {variant_name_list silent_variant ! j | j.
           j < length (variant_name_list silent_variant) \<and> 0 < carriers silent_variant j})"
proof -
  have h1: "rows_aligned silent_variant" by code_simp
  have h2: "distinct (variant_name_list silent_variant)" by code_simp
  have e1: "count_variants silent_variant = Inr [(''V1'', 2)]" by code_simp
  have e2: "carriers silent_variant 0 = 2" by code_simp
  have e3: "carriers silent_variant 1 = 0" by code_simp
  from count_variants_counts[OF h1 h2]
  show ?thesis using h1 h2 e1 e2 e3 by blast
qed

lemma map_of_add_call:
  "map_of (add_call c d) s =
     (if sample c = s then Some (dict_get d s [] @ [genotype_cell (GT c)]) else map_of d s)"
  by (simp add: add_call_def Let_def update_conv' dict_get_def)

lemma dict_get_add_call:
  "dict_get (add_call c d) s [] =
     (if sample c = s then dict_get d s [] @ [genotype_cell (GT c)] else dict_get d s [])"
  using map_of_add_call[of c d s] by (simp add: dict_get_def)

lemma map_of_add_calls:
  "map_of (foldl (\<lambda>d c. add_call c d) d cs) s =
     (if filter (\<lambda>c. sample c = s) cs = [] then map_of d s
      else Some (dict_get d s [] @ map (\<lambda>c. genotype_cell (GT c)) (filter (\<lambda>c. sample c = s) cs)))"
proof (induction cs arbitrary: d)
  case Nil
  then show ?case by simp
next
  case (Cons c cs)
  show ?case
    unfolding foldl_Cons Cons.IH
    by (simp add: map_of_add_call dict_get_add_call)
qed

lemma add_variants_snd:
  "snd (foldl add_variant (a, vd) vs) =
     foldl (\<lambda>d c. add_call c d) vd (concat (map samples vs))"
  by (induction vs arbitrary: a vd) (simp_all add: add_variant_def)

lemma add_variants_fst:
  "fst (foldl add_variant (a, vd) vs) =
     a\<lparr>variant_name_list := variant_name_list a @ map variant_name vs\<rparr>"
  by (induction vs arbitrary: a vd) (simp_all add: add_variant_def)

lemma create_variant_dict_rows:
  "map_of (snd (create_variant_dict a variants)) s =
     (if sample_calls s variants = [] then None
      else Some (map genotype_cell (sample_calls s variants)))"
  by (simp add: create_variant_dict_def add_variants_snd map_of_add_calls sample_calls_def
      dict_get_def comp_def)

lemma create_variant_dict_row_cells:
  assumes "map_of (snd (create_variant_dict a variants)) s = Some row"
  shows "length row = length (sample_calls s variants) \<and>
         (\<forall>j < length row. row ! j = genotype_cell (sample_calls s variants ! j))"
  using assms unfolding create_variant_dict_rows by (auto split: if_splits)

text \<open>
  C6. The cell of a call is 0 only for the three genotype strings that the code lists,
  \<^verbatim>\<open>0/0\<close>, \<^verbatim>\<open>0|0\<close> and \<^verbatim>\<open>.\<close>. The missing diploid calls \<^verbatim>\<open>./.\<close> and \<^verbatim>\<open>.|.\<close> of a
  VCF file are not among them, so the code records them as 1, as it records a carried
  variant: the sample \<open>HG3\<close> of the example, whose calls are \<^verbatim>\<open>.\<close> and \<^verbatim>\<open>./.\<close>, gets the row
  \<open>[0, 1]\<close>. The haploid reference call \<^verbatim>\<open>0\<close> is recorded as 1 as well.
\<close>

theorem missing_diploid_call_recorded_as_variant:
  "genotype_cell ''.'' = 0 \<and> genotype_cell ''0/0'' = 0 \<and> genotype_cell ''0|0'' = 0 \<and>
   genotype_cell ''./.'' = 1 \<and> genotype_cell ''.|.'' = 1 \<and> genotype_cell ''0'' = 1 \<and>
   genotype_cell ''0|1'' = 1 \<and>
   sample_calls ''HG3'' example_variants = [''.'', ''./.''] \<and>
   map_of (snd (create_variant_dict
      \<lparr>variant_list = [], indiv_list = [], popu_list = [], variant_name_list = [],
       ancestry_dict = [], ancestry_list = []\<rparr> example_variants)) ''HG3'' = Some [0, 1]"
  by code_simp

lemma for_loop_Inl:
  assumes "for_loop body xs s = Inl e"
    and "P s"
    and "\<And>x t t'. x \<in> set xs \<Longrightarrow> P t \<Longrightarrow> body x t = Inr t' \<Longrightarrow> P t'"
  shows "\<exists>x \<in> set xs. \<exists>t. P t \<and> body x t = Inl e"
  using assms
proof (induction xs arbitrary: s)
  case Nil
  then show ?case by simp
next
  case (Cons x xs)
  show ?case
  proof (cases "body x s")
    case (Inl e')
    with Cons.prems(1) have "e' = e" by simp
    with Inl Cons.prems(2) show ?thesis by auto
  next
    case (Inr t)
    with Cons.prems(1) have r: "for_loop body xs t = Inl e" by simp
    have "P t" using Cons.prems(2,3) Inr by auto
    from Cons.IH[OF r this] Cons.prems(3) show ?thesis by auto
  qed
qed

lemma ignore_row_no_KeyError: "ignore_row j d r ign \<noteq> Inl KeyError"
  by (cases r) (auto simp: ignore_row_def list_get_def)

lemma ignore_constraint_no_KeyError: "ignore_constraint a c ign \<noteq> Inl KeyError"
proof
  assume e: "ignore_constraint a c ign = Inl KeyError"
  obtain v d where c: "c = (v, d)" by (cases c)
  show False
  proof (cases "list_index (variant_name_list a) v")
    case (Inl e')
    from list_index_Inl[OF Inl] have "e' = ValueError" by simp
    with e Inl show False by (simp add: ignore_constraint_def c)
  next
    case (Inr j)
    with e have "for_loop (ignore_row j d) (enumerate 0 (variant_list a)) ign = Inl KeyError"
      by (simp add: ignore_constraint_def c)
    from for_loop_Inl[OF this, of "\<lambda>t. True"] show False
      using ignore_row_no_KeyError by blast
  qed
qed

lemma find_ignore_rows_no_KeyError: "find_ignore_rows a sp \<noteq> Inl KeyError"
proof
  assume "find_ignore_rows a sp = Inl KeyError"
  then have "for_loop (ignore_constraint a) (zip (fst sp) (snd sp)) [] = Inl KeyError"
    by (simp add: find_ignore_rows_def)
  from for_loop_Inl[OF this, of "\<lambda>t. True"] show False
    using ignore_constraint_no_KeyError by blast
qed

lemma dict_incr_Inr_keys:
  assumes "dict_incr d p = Inr d'"
  shows "fst ` set d' = fst ` set d"
proof -
  from assms obtain c where c: "map_of d p = Some c" and d': "d' = AList.update p (c + 1) d"
    by (auto simp: dict_incr_def split: option.splits)
  from c have "p \<in> fst ` set d" by (metis domI dom_map_of_conv_image_fst)
  then show ?thesis unfolding d' dom_update by blast
qed

lemma dict_incr_KeyError: "dict_incr d p = Inl e \<Longrightarrow> p \<notin> fst ` set d"
  by (auto simp: dict_incr_def split: option.splits simp: map_of_eq_None_iff)

lemma dict_incr_known:
  assumes "p \<in> fst ` set d"
  shows "\<exists>d'. dict_incr d p = Inr d' \<and> fst ` set d' = fst ` set d"
proof -
  from assms obtain c where c: "map_of d p = Some c"
    by (metis domD dom_map_of_conv_image_fst)
  then have "dict_incr d p = Inr (AList.update p (c + 1) d)" by (simp add: dict_incr_def)
  with dict_incr_Inr_keys[OF this] show ?thesis by blast
qed

lemma list_get_Inr: "list_get xs i = Inr x \<Longrightarrow> x \<in> set xs"
  by (auto simp: list_get_def split: if_splits)

lemma list_get_Inl: "list_get xs i = Inl e \<Longrightarrow> e = IndexError"
  by (auto simp: list_get_def split: if_splits)

lemma split_row_keys:
  assumes pk: "popu_known a"
    and kw: "fst ` set w = set (ancestry_list a)" and kwo: "fst ` set wo = set (ancestry_list a)"
  shows "split_row a ig sv r (w, wo) \<noteq> Inl KeyError \<and>
         (\<forall>w' wo'. split_row a ig sv r (w, wo) = Inr (w', wo') \<longrightarrow>
            fst ` set w' = set (ancestry_list a) \<and> fst ` set wo' = set (ancestry_list a))"
proof -
  obtain idx row where r: "r = (idx, row)" by (cases r)
  show ?thesis
  proof (cases "idx \<in> set ig")
    case True
    then show ?thesis using kw kwo by (simp add: split_row_def r)
  next
    case nig: False
    show ?thesis
    proof (cases "list_get (popu_list a) idx")
      case (Inl e)
      then have "e = IndexError" by (rule list_get_Inl)
      with Inl nig show ?thesis by (simp add: split_row_def r)
    next
      case (Inr popu)
      then have "popu \<in> set (popu_list a)" by (rule list_get_Inr)
      with pk have pa: "popu \<in> set (ancestry_list a)" by (simp add: popu_known_def list_all_iff)
      from pa kw dict_incr_known[of popu w] obtain w1 where
        w1: "dict_incr w popu = Inr w1" "fst ` set w1 = set (ancestry_list a)" by auto
      from pa kwo dict_incr_known[of popu wo] obtain wo1 where
        wo1: "dict_incr wo popu = Inr wo1" "fst ` set wo1 = set (ancestry_list a)" by auto
      show ?thesis
      proof (cases "truthy sv")
        case False
        then show ?thesis using nig Inr kw kwo by (simp add: split_row_def r)
      next
        case tr: True
        show ?thesis
        proof (cases "list_index (variant_name_list a) (the sv)")
          case (Inl e)
          from list_index_Inl[OF Inl] have "e = ValueError" by simp
          with Inl nig Inr tr show ?thesis by (simp add: split_row_def r)
        next
          case j: (Inr j)
          show ?thesis
          proof (cases "list_get row j")
            case (Inl e)
            then have "e = IndexError" by (rule list_get_Inl)
            with Inl nig Inr tr j show ?thesis by (simp add: split_row_def r)
          next
            case c: (Inr cell)
            show ?thesis
              using nig Inr tr j c w1 wo1 kw kwo by (simp add: split_row_def r)
          qed
        qed
      qed
    qed
  qed
qed

lemma split_subset_no_KeyError:
  assumes "popu_known a"
  shows "split_subset a sp sv \<noteq> Inl KeyError"
proof
  assume e: "split_subset a sp sv = Inl KeyError"
  let ?Z = "dict_fromkeys (ancestry_list a) (0::int)"
  let ?P = "\<lambda>t::(string, int) dict \<times> (string, int) dict.
              fst ` set (fst t) = set (ancestry_list a) \<and> fst ` set (snd t) = set (ancestry_list a)"
  have kZ: "fst ` set ?Z = set (ancestry_list a)" using set_fromkeys[of "ancestry_list a" "0::int"] by simp
  show False
  proof (cases "find_ignore_rows a sp")
    case (Inl e')
    with e have "find_ignore_rows a sp = Inl KeyError" by (simp add: split_subset_def)
    with find_ignore_rows_no_KeyError show False by blast
  next
    case (Inr ig)
    with e have l: "for_loop (split_row a ig sv) (enumerate 0 (variant_list a)) (?Z, ?Z) = Inl KeyError"
      by (simp add: split_subset_def)
    have "\<exists>x \<in> set (enumerate 0 (variant_list a)). \<exists>t. ?P t \<and> split_row a ig sv x t = Inl KeyError"
    proof (rule for_loop_Inl[OF l, where P = ?P])
      show "?P (?Z, ?Z)" using kZ by simp
    next
      fix x t t' assume p: "?P t" and b: "split_row a ig sv x t = Inr t'"
      obtain w wo where t: "t = (w, wo)" by (cases t)
      obtain w' wo' where t': "t' = (w', wo')" by (cases t')
      from p t have kw: "fst ` set w = set (ancestry_list a)"
        and kwo: "fst ` set wo = set (ancestry_list a)" by simp_all
      from split_row_keys[OF assms kw kwo, of ig sv x] b[unfolded t t']
      have "fst ` set w' = set (ancestry_list a) \<and> fst ` set wo' = set (ancestry_list a)"
        by blast
      then show "?P t'" by (simp add: t')
    qed
    then obtain x t where p: "?P t" and b: "split_row a ig sv x t = Inl KeyError" by blast
    obtain w wo where t: "t = (w, wo)" by (cases t)
    from p t have kw: "fst ` set w = set (ancestry_list a)"
      and kwo: "fst ` set wo = set (ancestry_list a)" by simp_all
    from split_row_keys[OF assms kw kwo, of ig sv x] b[unfolded t]
    show False by blast
  qed
qed

lemma count_cell_keys:
  assumes "\<forall>d \<in> set wl. fst ` set d = K" and "p \<in> K"
  shows "count_cell p c wl \<noteq> Inl KeyError \<and>
         (\<forall>wl'. count_cell p c wl = Inr wl' \<longrightarrow> (\<forall>d \<in> set wl'. fst ` set d = K))"
proof -
  obtain j v where c: "c = (j, v)" by (cases c)
  show ?thesis
  proof (cases "v = 1")
    case False
    then show ?thesis using assms(1) by (simp add: count_cell_def c)
  next
    case True
    show ?thesis
    proof (cases "list_get wl j")
      case (Inl e)
      then have "e = IndexError" by (rule list_get_Inl)
      with Inl True show ?thesis by (simp add: count_cell_def c)
    next
      case (Inr d)
      then have "d \<in> set wl" by (rule list_get_Inr)
      with assms have "p \<in> fst ` set d" and kd: "fst ` set d = K" by auto
      from dict_incr_known[OF this(1)] obtain d' where
        d': "dict_incr d p = Inr d'" "fst ` set d' = fst ` set d" by blast
      have "\<forall>x \<in> set (wl[j := d']). fst ` set x = K"
      proof
        fix x assume "x \<in> set (wl[j := d'])"
        then have "x \<in> insert d' (set wl)" using set_update_subset_insert by fast
        then have "x = d' \<or> x \<in> set wl" by simp
        then show "fst ` set x = K"
        proof
          assume "x = d'" then show ?thesis using d'(2) kd by simp
        next
          assume "x \<in> set wl" then show ?thesis using assms(1) by blast
        qed
      qed
      then show ?thesis using True Inr d' by (simp add: count_cell_def c)
    qed
  qed
qed

lemma count_row_keys:
  assumes pk: "popu_known a" and K: "\<forall>d \<in> set wl. fst ` set d = set (ancestry_list a)"
  shows "count_row a ig r wl \<noteq> Inl KeyError \<and>
         (\<forall>wl'. count_row a ig r wl = Inr wl' \<longrightarrow>
            (\<forall>d \<in> set wl'. fst ` set d = set (ancestry_list a)))"
proof -
  obtain idx row where r: "r = (idx, row)" by (cases r)
  let ?P = "\<lambda>t::(string, int) dict list. \<forall>d \<in> set t. fst ` set d = set (ancestry_list a)"
  show ?thesis
  proof (cases "idx \<in> set ig")
    case True
    then show ?thesis using K by (simp add: count_row_def r)
  next
    case nig: False
    show ?thesis
    proof (cases "list_get (popu_list a) idx")
      case (Inl e)
      then have "e = IndexError" by (rule list_get_Inl)
      with Inl nig show ?thesis by (simp add: count_row_def r)
    next
      case (Inr popu)
      then have "popu \<in> set (popu_list a)" by (rule list_get_Inr)
      with pk have pa: "popu \<in> set (ancestry_list a)" by (simp add: popu_known_def list_all_iff)
      have eq: "count_row a ig r wl = for_loop (count_cell popu) (enumerate 0 row) wl"
        using nig Inr by (simp add: count_row_def r)
      have 1: "for_loop (count_cell popu) (enumerate 0 row) wl \<noteq> Inl KeyError"
      proof
        assume l: "for_loop (count_cell popu) (enumerate 0 row) wl = Inl KeyError"
        have "\<exists>x \<in> set (enumerate 0 row). \<exists>t. ?P t \<and> count_cell popu x t = Inl KeyError"
        proof (rule for_loop_Inl[OF l, where P = ?P])
          show "?P wl" by (rule K)
        next
          fix x t t' assume "?P t" and "count_cell popu x t = Inr t'"
          then show "?P t'" using count_cell_keys[of t "set (ancestry_list a)" popu x] pa by blast
        qed
        then obtain x t where "?P t" "count_cell popu x t = Inl KeyError" by blast
        then show False using count_cell_keys[of t "set (ancestry_list a)" popu x] pa by blast
      qed
      have 2: "?P wl'" if l: "for_loop (count_cell popu) (enumerate 0 row) wl = Inr wl'" for wl'
      proof (rule for_loop_invariant[OF l, where P = ?P])
        show "?P wl" by (rule K)
      next
        fix x t t' assume "?P t" and "count_cell popu x t = Inr t'"
        then show "?P t'" using count_cell_keys[of t "set (ancestry_list a)" popu x] pa by blast
      qed
      from 1 2 show ?thesis unfolding eq by blast
    qed
  qed
qed

lemma find_next_no_KeyError:
  assumes "popu_known a"
  shows "find_next_variant_counts a sp \<noteq> Inl KeyError"
proof
  assume e: "find_next_variant_counts a sp = Inl KeyError"
  let ?wl = "map (\<lambda>variant_names. dict_fromkeys (ancestry_list a) (0::int)) (variant_name_list a)"
  let ?P = "\<lambda>t::(string, int) dict list. \<forall>d \<in> set t. fst ` set d = set (ancestry_list a)"
  have P0: "?P ?wl" using set_fromkeys[of "ancestry_list a" "0::int"] by auto
  show False
  proof (cases "find_ignore_rows a sp")
    case (Inl e')
    with e have "find_ignore_rows a sp = Inl KeyError" by (simp add: find_next_variant_counts_def)
    with find_ignore_rows_no_KeyError show False by blast
  next
    case (Inr ig)
    with e have l: "for_loop (count_row a ig) (enumerate 0 (variant_list a)) ?wl = Inl KeyError"
      by (simp add: find_next_variant_counts_def)
    have "\<exists>x \<in> set (enumerate 0 (variant_list a)). \<exists>t. ?P t \<and> count_row a ig x t = Inl KeyError"
    proof (rule for_loop_Inl[OF l, where P = ?P])
      show "?P ?wl" by (rule P0)
    next
      fix x t t' assume "?P t" and "count_row a ig x t = Inr t'"
      then show "?P t'" using count_row_keys[OF assms, of t ig x] by blast
    qed
    then obtain x t where "?P t" "count_row a ig x t = Inl KeyError" by blast
    then show False using count_row_keys[OF assms, of t ig x] by blast
  qed
qed

lemma update_fresh: "k \<notin> fst ` set d \<Longrightarrow> AList.update k v d = d @ [(k, v)]"
  by (induction d) auto

lemma read_line_Inr:
  assumes "read_line vd line a = Inr a'"
  shows "ancestry_dict a' =
           AList.update (line_id line) (line_population line) (ancestry_dict a) \<and>
         variant_name_list a' = variant_name_list a \<and>
         ((popu_list a' = popu_list a \<and> variant_list a' = variant_list a) \<or>
          (\<exists>row. map_of vd (line_id line) = Some row \<and>
                  popu_list a' = popu_list a @ [line_population line] \<and>
                  variant_list a' = variant_list a @ [row]))"
proof -
  let ?sl = "str_split (CHR 0x09) line"
  from assms obtain indiv_id where i: "list_get ?sl 1 = Inr indiv_id"
    by (cases "list_get ?sl 1") (auto simp: read_line_def Let_def)
  from assms i obtain population where p: "list_get ?sl 6 = Inr population"
    by (cases "list_get ?sl 6") (auto simp: read_line_def Let_def)
  from i have ie: "indiv_id = line_id line"
    by (auto simp: list_get_def line_id_def split: if_splits)
  from p have pe: "population = line_population line"
    by (auto simp: list_get_def line_population_def split: if_splits)
  show ?thesis
  proof (cases "map_of vd indiv_id")
    case None
    with assms i p have "a' = a\<lparr>ancestry_dict := AList.update indiv_id population (ancestry_dict a)\<rparr>"
      by (simp add: read_line_def Let_def)
    then show ?thesis using ie pe by auto
  next
    case (Some row)
    with assms i p have
      "a' = a\<lparr>ancestry_dict := AList.update indiv_id population (ancestry_dict a),
              indiv_list := indiv_list a @ [indiv_id],
              popu_list := popu_list a @ [population],
              variant_list := variant_list a @ [row]\<rparr>"
      by (simp add: read_line_def Let_def)
    then show ?thesis using ie pe Some by auto
  qed
qed

lemma update_same:
  assumes "distinct (map fst d)" and "(k, v) \<in> set d"
  shows "AList.update k v d = d"
  using assms by (intro update_triv) simp

lemma read_lines_invariant:
  assumes "for_loop (read_line vd) lines a = Inr a'"
    and "one_population_per_id lines"
    and "\<forall>(k, p) \<in> set (ancestry_dict a). \<forall>line \<in> set lines.
           line_id line = k \<longrightarrow> line_population line = p"
    and "distinct (map fst (ancestry_dict a))"
    and "set (popu_list a) \<subseteq> snd ` set (ancestry_dict a)"
    and "length (popu_list a) = length (variant_list a)"
    and "set (variant_list a) \<subseteq> snd ` set vd"
  shows "set (popu_list a') \<subseteq> snd ` set (ancestry_dict a') \<and>
         length (popu_list a') = length (variant_list a') \<and>
         set (variant_list a') \<subseteq> snd ` set vd \<and>
         variant_name_list a' = variant_name_list a"
  using assms
proof (induction lines arbitrary: a)
  case Nil
  then show ?case by simp
next
  case (Cons line lines)
  let ?id = "line_id line" and ?pop = "line_population line"
  from Cons.prems(1) obtain a1 where
    s: "read_line vd line a = Inr a1" and r: "for_loop (read_line vd) lines a1 = Inr a'"
    by (auto split: sum.splits)
  from read_line_Inr[OF s] have
    d: "ancestry_dict a1 = AList.update ?id ?pop (ancestry_dict a)" and
    n: "variant_name_list a1 = variant_name_list a" and
    l: "(popu_list a1 = popu_list a \<and> variant_list a1 = variant_list a) \<or>
        (\<exists>row. map_of vd ?id = Some row \<and> popu_list a1 = popu_list a @ [?pop] \<and>
                variant_list a1 = variant_list a @ [row])"
    by simp_all
  have pair: "\<forall>l \<in> set (line # lines). \<forall>l' \<in> set (line # lines).
                line_id l = line_id l' \<longrightarrow> line_population l = line_population l'"
    using Cons.prems(2) unfolding one_population_per_id_def list_all_iff by blast
  have 2: "one_population_per_id lines"
    unfolding one_population_per_id_def list_all_iff
  proof (intro ballI)
    fix l l' assume "l \<in> set lines" and "l' \<in> set lines"
    then have "l \<in> set (line # lines)" and "l' \<in> set (line # lines)" by simp_all
    with pair show "line_id l \<noteq> line_id l' \<or> line_population l = line_population l'" by blast
  qed
  have sub: "set (ancestry_dict a1) \<subseteq> insert (?id, ?pop) (set (ancestry_dict a))"
    and sup: "set (ancestry_dict a) \<subseteq> set (ancestry_dict a1)"
    and new: "(?id, ?pop) \<in> set (ancestry_dict a1)"
  proof -
    show "set (ancestry_dict a1) \<subseteq> insert (?id, ?pop) (set (ancestry_dict a))"
    proof (cases "?id \<in> fst ` set (ancestry_dict a)")
      case True
      then obtain p where p: "(?id, p) \<in> set (ancestry_dict a)" by force
      with Cons.prems(3) have "\<forall>l \<in> set (line # lines). line_id l = ?id \<longrightarrow> line_population l = p"
        by blast
      then have "?pop = p" by simp
      with p have "AList.update ?id ?pop (ancestry_dict a) = ancestry_dict a"
        using update_same[OF Cons.prems(4)] by simp
      then show ?thesis unfolding d by auto
    next
      case False
      then show ?thesis unfolding d by (auto simp: update_fresh)
    qed
    show "set (ancestry_dict a) \<subseteq> set (ancestry_dict a1)"
    proof (cases "?id \<in> fst ` set (ancestry_dict a)")
      case True
      then obtain p where p: "(?id, p) \<in> set (ancestry_dict a)" by force
      with Cons.prems(3) have "\<forall>l \<in> set (line # lines). line_id l = ?id \<longrightarrow> line_population l = p"
        by blast
      then have "?pop = p" by simp
      with p have "AList.update ?id ?pop (ancestry_dict a) = ancestry_dict a"
        using update_same[OF Cons.prems(4)] by simp
      then show ?thesis unfolding d by auto
    next
      case False
      then show ?thesis unfolding d by (auto simp: update_fresh)
    qed
    show "(?id, ?pop) \<in> set (ancestry_dict a1)"
      unfolding d by (metis map_of_SomeD update_Some_unfold)
  qed
  have c3: "line_population l' = p"
    if kp: "(k, p) \<in> set (ancestry_dict a1)" and l': "l' \<in> set lines" and e: "line_id l' = k"
    for k p l'
  proof -
    from kp sub have "(k, p) = (?id, ?pop) \<or> (k, p) \<in> set (ancestry_dict a)" by blast
    then show ?thesis
    proof
      assume "(k, p) = (?id, ?pop)"
      then have k: "line_id line = line_id l'" and p: "p = ?pop" using e by simp_all
      have "line \<in> set (line # lines)" and "l' \<in> set (line # lines)" using l' by simp_all
      with pair k have "line_population line = line_population l'" by blast
      then show ?thesis using p by simp
    next
      assume "(k, p) \<in> set (ancestry_dict a)"
      with Cons.prems(3) have "\<forall>l \<in> set (line # lines). line_id l = k \<longrightarrow> line_population l = p"
        by blast
      then show ?thesis using l' e by simp
    qed
  qed
  have 3: "\<forall>(k, p) \<in> set (ancestry_dict a1). \<forall>line \<in> set lines.
           line_id line = k \<longrightarrow> line_population line = p"
    using c3 by blast
  have 4: "distinct (map fst (ancestry_dict a1))"
    unfolding d by (rule distinct_update[OF Cons.prems(4)])
  have 5: "set (popu_list a1) \<subseteq> snd ` set (ancestry_dict a1)"
  proof -
    have m: "snd ` set (ancestry_dict a) \<subseteq> snd ` set (ancestry_dict a1)"
      using sup by (rule image_mono)
    have "snd (?id, ?pop) \<in> snd ` set (ancestry_dict a1)" using new by (rule imageI)
    then have n: "?pop \<in> snd ` set (ancestry_dict a1)" by simp
    have o: "set (popu_list a) \<subseteq> snd ` set (ancestry_dict a1)"
      using Cons.prems(5) m by (rule subset_trans)
    from l show ?thesis
    proof
      assume "popu_list a1 = popu_list a \<and> variant_list a1 = variant_list a"
      then show ?thesis using o by simp
    next
      assume "\<exists>row. map_of vd ?id = Some row \<and> popu_list a1 = popu_list a @ [?pop] \<and>
                variant_list a1 = variant_list a @ [row]"
      then have "popu_list a1 = popu_list a @ [?pop]" by blast
      then show ?thesis using o n by simp
    qed
  qed
  have 6: "length (popu_list a1) = length (variant_list a1)"
    using l Cons.prems(6) by auto
  have 7: "set (variant_list a1) \<subseteq> snd ` set vd"
  proof -
    have "row \<in> snd ` set vd" if "map_of vd ?id = Some row" for row
      using map_of_SomeD[OF that] by force
    then show ?thesis using l Cons.prems(7) by auto
  qed
  from Cons.IH[OF r 2 3 4 5 6 7] n show ?case by simp
qed

lemma init_invariants:
  assumes "LOCAL_API_init variants mapping_file = Inr a"
    and "one_population_per_id (tl mapping_file)"
  shows "popu_aligned a \<and> popu_known a \<and>
         variant_name_list a = map variant_name variants \<and>
         set (variant_list a) \<subseteq>
           snd ` set (snd (create_variant_dict
              \<lparr>variant_list = [], indiv_list = [], popu_list = [], variant_name_list = [],
               ancestry_dict = [], ancestry_list = []\<rparr> variants))"
proof -
  let ?a0 = "\<lparr>variant_list = [], indiv_list = [], popu_list = [], variant_name_list = [],
              ancestry_dict = [], ancestry_list = []\<rparr>"
  obtain a1 vd where c: "create_variant_dict ?a0 variants = (a1, vd)"
    by (cases "create_variant_dict ?a0 variants")
  have "a1 = fst (foldl add_variant (?a0, []) variants)"
    using c by (simp add: create_variant_dict_def)
  then have a1: "a1 = ?a0\<lparr>variant_name_list := variant_name_list ?a0 @ map variant_name variants\<rparr>"
    by (simp only: add_variants_fst)
  from assms(1) c have r: "read_user_mappings a1 mapping_file vd = Inr a"
    by (simp add: LOCAL_API_init_def)
  then obtain header lines where f: "mapping_file = header # lines"
    by (cases mapping_file) (auto simp: read_user_mappings_def)
  from r f obtain a' where
    l: "for_loop (read_line vd) lines a1 = Inr a'" and
    a: "a = a'\<lparr>ancestry_list := sort (remdups (map snd (ancestry_dict a')))\<rparr>"
    by (auto simp: read_user_mappings_def split: sum.splits)
  have 2: "one_population_per_id lines" using assms(2) f by simp
  have 3: "\<forall>(k, p) \<in> set (ancestry_dict a1). \<forall>line \<in> set lines.
           line_id line = k \<longrightarrow> line_population line = p" by (simp add: a1)
  have 4: "distinct (map fst (ancestry_dict a1))" by (simp add: a1)
  have 5: "set (popu_list a1) \<subseteq> snd ` set (ancestry_dict a1)" by (simp add: a1)
  have 6: "length (popu_list a1) = length (variant_list a1)" by (simp add: a1)
  have 7: "set (variant_list a1) \<subseteq> snd ` set vd" by (simp add: a1)
  from read_lines_invariant[OF l 2 3 4 5 6 7] have
    i: "set (popu_list a') \<subseteq> snd ` set (ancestry_dict a')"
       "length (popu_list a') = length (variant_list a')"
       "set (variant_list a') \<subseteq> snd ` set vd"
       "variant_name_list a' = variant_name_list a1" by simp_all
  have "popu_aligned a" using i(2) by (simp add: popu_aligned_def a)
  moreover have "popu_known a" using i(1) by (auto simp: popu_known_def list_all_iff a)
  moreover have "variant_name_list a = map variant_name variants" using i(4) by (simp add: a a1)
  moreover have "set (variant_list a) \<subseteq> snd ` set (snd (create_variant_dict ?a0 variants))"
    using i(3) by (simp add: a c)
  ultimately show ?thesis by simp
qed

lemma add_calls_distinct:
  "distinct (map fst d) \<Longrightarrow> distinct (map fst (foldl (\<lambda>d c. add_call c d) d cs))"
  by (induction cs arbitrary: d) (simp_all add: add_call_def Let_def distinct_update)

lemma create_variant_dict_distinct: "distinct (map fst (snd (create_variant_dict a variants)))"
  by (simp add: create_variant_dict_def add_variants_snd add_calls_distinct)

lemma length_filter_concat:
  "length (filter P (concat xss)) = sum_list (map (\<lambda>xs. length (filter P xs)) xss)"
  by (induction xss) simp_all

lemma create_variant_dict_row_length:
  assumes "same_samples variants"
    and "(s, row) \<in> set (snd (create_variant_dict a variants))"
  shows "length row = length variants"
proof -
  from assms(2) create_variant_dict_distinct[of a variants]
  have m: "map_of (snd (create_variant_dict a variants)) s = Some row" by simp
  then have ne: "sample_calls s variants \<noteq> []"
    and row: "row = map genotype_cell (sample_calls s variants)"
    unfolding create_variant_dict_rows by (simp_all split: if_splits)
  from ne obtain c where "c \<in> set (concat (map samples variants))" and cs: "sample c = s"
    unfolding sample_calls_def by (auto simp: filter_empty_conv)
  then obtain v where v: "v \<in> set variants" and c: "c \<in> set (samples v)" by auto
  have one: "length (filter (\<lambda>c'. sample c' = s) (samples v')) = 1" if "v' \<in> set variants" for v'
    using assms(1) v c cs that unfolding same_samples_def list_all_iff by blast
  have "length row = sum_list (map (\<lambda>v'. length (filter (\<lambda>c'. sample c' = s) (samples v'))) variants)"
    by (simp add: row sample_calls_def length_filter_concat comp_def)
  also have "\<dots> = sum_list (map (\<lambda>v'. 1) variants)"
    using one by (intro arg_cong[where f = sum_list] map_cong refl) simp
  also have "\<dots> = length variants" by (simp add: sum_list_triv)
  finally show ?thesis .
qed

lemma read_lines_shape:
  assumes "for_loop (read_line vd) lines a = Inr a'"
    and "length (popu_list a) = length (variant_list a)"
    and "set (variant_list a) \<subseteq> snd ` set vd"
  shows "length (popu_list a') = length (variant_list a') \<and>
         set (variant_list a') \<subseteq> snd ` set vd \<and>
         variant_name_list a' = variant_name_list a"
proof -
  let ?P = "\<lambda>t. length (popu_list t) = length (variant_list t) \<and>
         set (variant_list t) \<subseteq> snd ` set vd \<and>
         variant_name_list t = variant_name_list a"
  have "?P a'"
  proof (rule for_loop_invariant[OF assms(1), where P = ?P])
    show "?P a" using assms(2,3) by simp
  next
    fix x t t' assume p: "?P t" and b: "read_line vd x t = Inr t'"
    from read_line_Inr[OF b] have
      n: "variant_name_list t' = variant_name_list t" and
      l: "(popu_list t' = popu_list t \<and> variant_list t' = variant_list t) \<or>
          (\<exists>row. map_of vd (line_id x) = Some row \<and>
                  popu_list t' = popu_list t @ [line_population x] \<and>
                  variant_list t' = variant_list t @ [row])" by simp_all
    from l show "?P t'"
    proof
      assume "popu_list t' = popu_list t \<and> variant_list t' = variant_list t"
      then show ?thesis using p n by simp
    next
      assume "\<exists>row. map_of vd (line_id x) = Some row \<and>
                  popu_list t' = popu_list t @ [line_population x] \<and>
                  variant_list t' = variant_list t @ [row]"
      then obtain row where r: "map_of vd (line_id x) = Some row"
        "popu_list t' = popu_list t @ [line_population x]"
        "variant_list t' = variant_list t @ [row]" by blast
      from map_of_SomeD[OF r(1)] have "snd (line_id x, row) \<in> snd ` set vd" by (rule imageI)
      then have "row \<in> snd ` set vd" by simp
      then show ?thesis using p n r(2,3) by simp
    qed
  qed
  then show ?thesis .
qed

lemma init_shape:
  assumes "LOCAL_API_init variants mapping_file = Inr a"
  shows "popu_aligned a \<and> variant_name_list a = map variant_name variants \<and>
         (same_samples variants \<longrightarrow> rows_aligned a)"
proof -
  let ?a0 = "\<lparr>variant_list = [], indiv_list = [], popu_list = [], variant_name_list = [],
              ancestry_dict = [], ancestry_list = []\<rparr>"
  obtain a1 vd where c: "create_variant_dict ?a0 variants = (a1, vd)"
    by (cases "create_variant_dict ?a0 variants")
  have "a1 = fst (foldl add_variant (?a0, []) variants)"
    using c by (simp add: create_variant_dict_def)
  then have a1: "a1 = ?a0\<lparr>variant_name_list := variant_name_list ?a0 @ map variant_name variants\<rparr>"
    by (simp only: add_variants_fst)
  from assms(1) c have r: "read_user_mappings a1 mapping_file vd = Inr a"
    by (simp add: LOCAL_API_init_def)
  then obtain header lines where f: "mapping_file = header # lines"
    by (cases mapping_file) (auto simp: read_user_mappings_def)
  from r f obtain a' where
    l: "for_loop (read_line vd) lines a1 = Inr a'" and
    a: "a = a'\<lparr>ancestry_list := sort (remdups (map snd (ancestry_dict a')))\<rparr>"
    by (auto simp: read_user_mappings_def split: sum.splits)
  have 1: "length (popu_list a1) = length (variant_list a1)" by (simp add: a1)
  have 2: "set (variant_list a1) \<subseteq> snd ` set vd" by (simp add: a1)
  from read_lines_shape[OF l 1 2] have
    i: "length (popu_list a') = length (variant_list a')"
       "set (variant_list a') \<subseteq> snd ` set vd"
       "variant_name_list a' = variant_name_list a1" by simp_all
  have pa: "popu_aligned a" using i(1) by (simp add: popu_aligned_def a)
  have nm: "variant_name_list a = map variant_name variants" using i(3) by (simp add: a a1)
  have ra: "rows_aligned a" if ss: "same_samples variants"
    unfolding rows_aligned_def list_all_iff
  proof
    fix row assume "row \<in> set (variant_list a)"
    then have "row \<in> snd ` set vd" using i(2) by (auto simp: a)
    then obtain s where "(s, row) \<in> set vd" by force
    then have "(s, row) \<in> set (snd (create_variant_dict ?a0 variants))" by (simp add: c)
    from create_variant_dict_row_length[OF ss this] show "length row = length (variant_name_list a)"
      by (simp add: nm)
  qed
  from pa nm ra show ?thesis by blast
qed

lemma variant_name_nonempty: "variant_name v \<noteq> []"
  by (simp add: variant_name_def)

lemma init_names_nonempty:
  assumes "LOCAL_API_init variants mapping_file = Inr a"
  shows "[] \<notin> set (variant_name_list a)"
proof
  assume "[] \<in> set (variant_name_list a)"
  then have "[] \<in> set (map variant_name variants)" using init_shape[OF assms] by simp
  then obtain v where "[] = variant_name v" by auto
  then show False using variant_name_nonempty[of v] by simp
qed

text \<open>
  C9, as the code has it. Whenever \<open>find_ignore_rows\<close> returns, its list has no duplicates
  and holds valid row indices, and it returns for every path whose variants occur in
  \<open>variant_name_list\<close> when the rows are aligned with the names, as they are when every
  variant has one call per sample. For a state built by \<^verbatim>\<open>__init__\<close> from a mapping file
  in which no individual id comes with two populations, the
  population list is aligned with the rows and each of its labels is in \<open>ancestry_list\<close>,
  so that neither \<open>split_subset\<close> nor \<open>find_next_variant_counts\<close> reads a missing key.
\<close>

theorem init_labels_are_keys:
  assumes "LOCAL_API_init variants mapping_file = Inr a"
    and "one_population_per_id (tl mapping_file)"
  shows "(\<forall>sp ig. find_ignore_rows a sp = Inr ig \<longrightarrow>
            distinct ig \<and> (\<forall>i \<in> set ig. i < length (variant_list a))) \<and>
         (\<forall>sp. rows_aligned a \<and> set (fst sp) \<subseteq> set (variant_name_list a) \<longrightarrow>
            (\<exists>ig. find_ignore_rows a sp = Inr ig)) \<and>
         (same_samples variants \<longrightarrow> rows_aligned a) \<and>
         popu_aligned a \<and> popu_known a \<and>
         (\<forall>sp split_var. split_subset a sp split_var \<noteq> Inl KeyError) \<and>
         (\<forall>sp. find_next_variant_counts a sp \<noteq> Inl KeyError)"
proof -
  from init_invariants[OF assms] have pa: "popu_aligned a" and pk: "popu_known a" by simp_all
  have 1: "\<forall>sp ig. find_ignore_rows a sp = Inr ig \<longrightarrow>
            distinct ig \<and> (\<forall>i \<in> set ig. i < length (variant_list a))"
    using find_ignore_rows_Inr by blast
  have 2: "\<forall>sp. rows_aligned a \<and> set (fst sp) \<subseteq> set (variant_name_list a) \<longrightarrow>
            (\<exists>ig. find_ignore_rows a sp = Inr ig)"
    using find_ignore_rows_total by blast
  have 3: "\<forall>sp split_var. split_subset a sp split_var \<noteq> Inl KeyError"
    using split_subset_no_KeyError[OF pk] by blast
  have 4: "\<forall>sp. find_next_variant_counts a sp \<noteq> Inl KeyError"
    using find_next_no_KeyError[OF pk] by blast
  have 5: "same_samples variants \<longrightarrow> rows_aligned a"
    using init_shape[OF assms(1)] by blast
  from 1 2 5 pa pk 3 4 show ?thesis by blast
qed

theorem init_labels_are_keys_witness:
  "LOCAL_API_init example_variants example_file = Inr example_api \<and>
   one_population_per_id (tl example_file) \<and>
   same_samples example_variants \<and> rows_aligned example_api \<and>
   find_ignore_rows example_api ([''1:99:100''], [1]) = Inr [1] \<and>
   split_subset example_api ([], []) (Some ''1:99:100'') =
     Inr ([(''CHS'', 0), (''FIN'', 0), (''GBR'', 1)], [(''CHS'', 0), (''FIN'', 1), (''GBR'', 0)]) \<and>
   popu_aligned example_api \<and> popu_known example_api \<and>
   split_subset example_api ([], []) (Some ''1:99:100'') \<noteq> Inl KeyError \<and>
   find_next_variant_counts example_api ([], []) \<noteq> Inl KeyError"
proof -
  have h1: "LOCAL_API_init example_variants example_file = Inr example_api" by code_simp
  have h2: "one_population_per_id (tl example_file)" by code_simp
  have h3: "same_samples example_variants" by code_simp
  have e2: "find_ignore_rows example_api ([''1:99:100''], [1]) = Inr [1]" by code_simp
  have e3: "split_subset example_api ([], []) (Some ''1:99:100'') =
     Inr ([(''CHS'', 0), (''FIN'', 0), (''GBR'', 1)], [(''CHS'', 0), (''FIN'', 1), (''GBR'', 0)])"
    by code_simp
  from init_labels_are_keys[OF h1 h2]
  show ?thesis using h1 h2 h3 e2 e3 by blast
qed

theorem repeated_id_counterexample:
  "LOCAL_API_init example_variants repeated_id_file = Inr repeated_id_api \<and>
   \<not> one_population_per_id (tl repeated_id_file) \<and>
   popu_list repeated_id_api = [''GBR'', ''FIN''] \<and>
   ancestry_list repeated_id_api = [''FIN''] \<and>
   rows_aligned repeated_id_api \<and>
   ''1:99:100'' \<in> set (variant_name_list repeated_id_api) \<and>
   find_ignore_rows repeated_id_api ([], []) = Inr [] \<and>
   split_subset repeated_id_api ([], []) (Some ''1:99:100'') = Inl KeyError \<and>
   find_next_variant_counts repeated_id_api ([], []) = Inl KeyError"
  by code_simp

text \<open>
  The concrete scenario of the specification, evaluated on the model: the root
  distribution, the split on \<open>V1\<close> at the root, and the split on \<open>V2\<close> below \<open>(V1, 1)\<close>.
\<close>

lemma scenario_evaluates:
  "get_target_set scenario = [(''A'', 2), (''B'', 2)] \<and>
   split_subset scenario ([], []) (Some ''V1'') =
     Inr ([(''A'', 2), (''B'', 0)], [(''A'', 0), (''B'', 2)]) \<and>
   fst (create_split_path ([], []) ''V1'') = ([''V1''], [1]) \<and>
   find_ignore_rows scenario ([''V1''], [1]) = Inr [2, 3] \<and>
   split_subset scenario ([''V1''], [1]) (Some ''V2'') =
     Inr ([(''A'', 1), (''B'', 0)], [(''A'', 1), (''B'', 0)]) \<and>
   count_variants scenario = Inr [(''V1'', 2), (''V2'', 2)]"
  by code_simp

end
